theory Spec2Isabelle
  imports Complex_Main "HOL-Library.Monad_Syntax"
begin

unbundle bit_operations_syntax

section \<open>Format selection\<close>

text \<open>
  Both generators compute \<open>total_bits = m + n + 1\<close> and pick the smallest of the
  8-, 16-, 32- and 64-bit signed types that holds it. A format of more than 64 bits
  is skipped by \<open>generate_header\<close> and raises \<open>ValueError\<close> in
  \<open>generate_math_header\<close>: there is no storage type, the value \<open>None\<close>.
  The accumulator (\<open>wide_type\<close>) has twice the storage width.
\<close>

definition total_bits :: "nat \<Rightarrow> nat \<Rightarrow> nat" where
  "total_bits m n = m + n + 1"

definition storage_bits :: "nat \<Rightarrow> nat \<Rightarrow> nat option" where
  "storage_bits m n =
     (if total_bits m n \<le> 8 then Some 8
      else if total_bits m n \<le> 16 then Some 16
      else if total_bits m n \<le> 32 then Some 32
      else if total_bits m n \<le> 64 then Some 64
      else None)"

definition wide_bits :: "nat \<Rightarrow> nat" where
  "wide_bits w = 2 * w"

section \<open>The C operations the generated code is written in\<close>

text \<open>
  A value of a signed type of \<open>w\<close> bits is an \<open>int\<close> in
  \<open>[-2^(w-1), 2^(w-1))\<close>. \<open>cast w\<close> is the conversion to that type, which
  keeps the low \<open>w\<close> bits (two's complement); \<open>ucast w\<close> is the conversion to the
  unsigned type of the same width. Operands narrower than \<open>int\<close> (32 bits) are
  promoted to \<open>int\<close> before any arithmetic: \<open>promo w\<close> is the width an
  expression over a \<open>w\<close>-bit type is computed in. The operators \<open>+\<close>, \<open>-\<close>,
  \<open>*\<close>, \<open>&\<close> and \<open>~\<close> commute with the reduction modulo \<open>2^w\<close>, so where
  their result is converted straight to the storage type the model converts the exact
  result; the promoted type is written out where a shift, a division or a comparison
  reads the intermediate value. Signed arithmetic that leaves the range of its type is
  taken to wrap around in two's complement, the policy the specification states for
  the generated code.
\<close>

definition cast :: "nat \<Rightarrow> int \<Rightarrow> int" where
  "cast w v = (v + 2 ^ (w - 1)) mod 2 ^ w - 2 ^ (w - 1)"

definition ucast :: "nat \<Rightarrow> int \<Rightarrow> int" where
  "ucast w v = v mod 2 ^ w"

definition promo :: "nat \<Rightarrow> nat" where
  "promo w = max w 32"

definition sarith :: "nat \<Rightarrow> int \<Rightarrow> int" where
  "sarith w v = cast (promo w) v"

definition in_range :: "nat \<Rightarrow> int \<Rightarrow> bool" where
  "in_range w v \<longleftrightarrow> - (2 ^ (w - 1)) \<le> v \<and> v < 2 ^ (w - 1)"

text \<open>
  \<open>E1 << E2\<close> and \<open>E1 >> E2\<close> in a signed type of \<open>bits\<close> bits. A shift count
  that is negative or not less than the width has no defined result. The right shift
  of a negative value is the arithmetic one.
\<close>

definition shl :: "nat \<Rightarrow> int \<Rightarrow> int \<Rightarrow> int option" where
  "shl bits v k = (if 0 \<le> k \<and> k < int bits then Some (cast bits (v * 2 ^ nat k)) else None)"

definition shr :: "nat \<Rightarrow> int \<Rightarrow> int \<Rightarrow> int option" where
  "shr bits v k = (if 0 \<le> k \<and> k < int bits then Some (drop_bit (nat k) v) else None)"

text \<open>Integer division truncates toward zero (the callers test the divisor first).\<close>

definition c_div :: "int \<Rightarrow> int \<Rightarrow> int" where
  "c_div a b = sgn a * sgn b * (\<bar>a\<bar> div \<bar>b\<bar>)"

text \<open>
  \<open>double\<close> (and Python \<open>float\<close>) values are modelled by the reals they
  denote. A decimal literal denotes the binary64 value nearest to it, which is written
  out below for the two literals that are not binary fractions. A product with a
  power of two only changes the exponent and is exact; the other operations the
  model applies to such values are exact real operations, which is what binary64
  computes where the result is representable, as it is at the values evaluated here.
  The conversion of a \<open>double\<close> to an integer type drops the fraction; when the
  integral part is not a value of the target type the conversion has no defined
  result (ISO C, 6.3.1.4): unlike an integer conversion it has no two's-complement
  reading, and implementations differ in what they produce.
\<close>

definition c_trunc :: "real \<Rightarrow> int" where
  "c_trunc r = (if 0 \<le> r then \<lfloor>r\<rfloor> else \<lceil>r\<rceil>)"

definition cast_double :: "nat \<Rightarrow> real \<Rightarrow> int option" where
  "cast_double w r = (if in_range w (c_trunc r) then Some (c_trunc r) else None)"

text \<open>
  The literal \<open>3.14159265358979323846\<close> of the \<open>PI\<close> macro is the binary64 value
  \<open>0x1.921fb54442d18p+1\<close>, and the literal \<open>0.60725293500888\<close> of the CORDIC gain
  \<open>k\<close> is \<open>0x1.36e9db5086bc0p-1\<close>.
\<close>

definition pi_literal :: real where
  "pi_literal = 884279719003555 / 2 ^ 48"

definition k_literal :: real where
  "k_literal = 85463252869551 / 2 ^ 47"

section \<open>The arithmetic header (\<open>generate_headers.py\<close>)\<close>

text \<open>
  \<open>w\<close> is the storage width of the format and \<open>n\<close> its number of fractional
  bits; arguments of type \<open>q{m}_{n}_t\<close> are integers in \<open>in_range w\<close>.
\<close>

definition Q_ONE :: "nat \<Rightarrow> nat \<Rightarrow> int" where
  "Q_ONE w n = cast w (2 ^ n)"

definition Q_MAX :: "nat \<Rightarrow> int" where
  "Q_MAX w = 2 ^ (w - 1) - 1"

definition Q_MIN :: "nat \<Rightarrow> int" where
  "Q_MIN w = - (2 ^ (w - 1))"

definition uadd :: "nat \<Rightarrow> int \<Rightarrow> int \<Rightarrow> int" where
  "uadd w x y = (if w < 32 then cast 32 (x + y) else ucast w (x + y))"

definition usub :: "nat \<Rightarrow> int \<Rightarrow> int \<Rightarrow> int" where
  "usub w x y = (if w < 32 then cast 32 (x - y) else ucast w (x - y))"

definition q_add :: "nat \<Rightarrow> int \<Rightarrow> int \<Rightarrow> int" where
  "q_add w a b = cast w (uadd w (ucast w a) (ucast w b))"

definition q_sub :: "nat \<Rightarrow> int \<Rightarrow> int \<Rightarrow> int" where
  "q_sub w a b = cast w (usub w (ucast w a) (ucast w b))"

definition q_mul :: "nat \<Rightarrow> nat \<Rightarrow> int \<Rightarrow> int \<Rightarrow> int option" where
  "q_mul w n a b = do {
     let prod = cast (wide_bits w) (a * b);
     bias \<leftarrow> shl 32 1 (int n - 1);
     r \<leftarrow> shr (promo (wide_bits w)) (sarith (wide_bits w) (prod + bias)) (int n);
     Some (cast w r)
   }"

definition q_div :: "nat \<Rightarrow> nat \<Rightarrow> int \<Rightarrow> int \<Rightarrow> int option" where
  "q_div w n a b =
     (if b = 0 then Some (if a \<ge> 0 then Q_MAX w else Q_MIN w)
      else do {
        s \<leftarrow> shl (promo (wide_bits w)) a (int n);
        let dividend = cast (wide_bits w) s;
        Some (cast w (sarith (wide_bits w) (c_div dividend b)))
      })"

definition q_from_double :: "nat \<Rightarrow> nat \<Rightarrow> real \<Rightarrow> int option" where
  "q_from_double w n d = cast_double w (d * 2 ^ n + (if d \<ge> 0 then 0.5 else - 0.5))"

definition q_to_double :: "nat \<Rightarrow> int \<Rightarrow> real" where
  "q_to_double n a = real_of_int a / 2 ^ n"

section \<open>The math header (\<open>generate_math_headers.py\<close>)\<close>

subsection \<open>Constants\<close>

text \<open>
  The macros shift the \<open>long long\<close> constant \<open>1LL\<close> (64 bits) and convert the
  result to the storage type. \<open>HALF\<close> shifts by \<open>n - 1\<close>, which is \<open>-1\<close> for a
  format without fractional bits. \<open>PI\<close> converts a \<open>double\<close> product.
\<close>

definition QM_ONE :: "nat \<Rightarrow> nat \<Rightarrow> int option" where
  "QM_ONE w n = map_option (cast w) (shl 64 1 (int n))"

definition QM_HALF :: "nat \<Rightarrow> nat \<Rightarrow> int option" where
  "QM_HALF w n = map_option (cast w) (shl 64 1 (int n - 1))"

definition QM_PI :: "nat \<Rightarrow> nat \<Rightarrow> int option" where
  "QM_PI w n = do {
     s \<leftarrow> shl 64 1 (int n);
     cast_double w (pi_literal * real_of_int s)
   }"

subsection \<open>Rounding functions\<close>

definition q_floor :: "nat \<Rightarrow> nat \<Rightarrow> int \<Rightarrow> int option" where
  "q_floor w n x = do {
     one \<leftarrow> QM_ONE w n;
     let frac_mask = cast w (one - 1);
     Some (if x \<ge> 0 then cast w (x AND NOT frac_mask)
           else if x AND frac_mask \<noteq> 0 then cast w ((x AND NOT frac_mask) - one)
           else x)
   }"

definition q_ceil :: "nat \<Rightarrow> nat \<Rightarrow> int \<Rightarrow> int option" where
  "q_ceil w n x = do {
     one \<leftarrow> QM_ONE w n;
     let frac_mask = cast w (one - 1);
     Some (if x \<ge> 0
           then (if x AND frac_mask \<noteq> 0 then cast w ((x AND NOT frac_mask) + one) else x)
           else cast w (x AND NOT frac_mask))
   }"

definition q_round :: "nat \<Rightarrow> nat \<Rightarrow> int \<Rightarrow> int option" where
  "q_round w n x = do {
     one \<leftarrow> QM_ONE w n;
     half \<leftarrow> QM_HALF w n;
     Some (if x \<ge> 0 then cast w ((x + half) AND NOT (one - 1))
           else cast w ((x - half) AND NOT (one - 1)))
   }"

definition q_trunc :: "nat \<Rightarrow> nat \<Rightarrow> int \<Rightarrow> int option" where
  "q_trunc w n x = do {
     one \<leftarrow> QM_ONE w n;
     Some (cast w (x AND NOT (one - 1)))
   }"

subsection \<open>CORDIC tables\<close>

text \<open>
  \<open>generate_cordic_tables\<close> runs in Python: \<open>int\<close> drops the fraction of a
  \<open>float\<close>. \<open>math.atan\<close> is the arctangent of the platform's C library, which
  is not part of the repository: it is the parameter \<open>math_atan\<close>, which takes the
  real a \<open>double\<close> denotes to the real the returned \<open>double\<close> denotes, and
  nothing is assumed of it here. \<open>2.0 ** -i\<close> is a power of two, and the product of
  a \<open>double\<close> with \<open>1 << n_bits\<close> only changes its exponent; both are exact,
  so they are the real quotient and product. The C file declares the array with
  \<open>CORDIC_ITERATIONS\<close> elements of the storage type; \<open>CORDIC_K\<close> is the first
  component of the generated pair.
\<close>

definition k_fixed :: "nat \<Rightarrow> int" where
  "k_fixed n = c_trunc (k_literal * 2 ^ n)"

definition atan_table :: "(real \<Rightarrow> real) \<Rightarrow> nat \<Rightarrow> int list" where
  "atan_table math_atan n =
     map (\<lambda>i. c_trunc (math_atan (1 / 2 ^ i) * 2 ^ n)) [0..<min n 32]"

definition generate_cordic_tables :: "(real \<Rightarrow> real) \<Rightarrow> nat \<Rightarrow> int \<times> int list" where
  "generate_cordic_tables math_atan n = (k_fixed n, atan_table math_atan n)"

definition CORDIC_K :: "nat \<Rightarrow> nat \<Rightarrow> int" where
  "CORDIC_K w n = cast w (k_fixed n)"

definition CORDIC_ITERATIONS :: "nat \<Rightarrow> nat" where
  "CORDIC_ITERATIONS n = min n 16"

definition cordic_atan_table :: "(real \<Rightarrow> real) \<Rightarrow> nat \<Rightarrow> nat \<Rightarrow> int list" where
  "cordic_atan_table math_atan w n =
     take (CORDIC_ITERATIONS n) (map (cast w) (snd (generate_cordic_tables math_atan n)))"

subsection \<open>CORDIC rotation and vectoring\<close>

text \<open>
  One pass of the loop body for index \<open>i\<close>, on the state \<open>(x_val, y_val, z)\<close>
  (rotation) or \<open>(x, y, z)\<close> (vectoring); the \<open>for\<close> loop runs it for
  \<open>i = 0, ..., CORDIC_ITERATIONS - 1\<close>. The table is read at \<open>i\<close>, below its
  length.
\<close>

definition rotate_step :: "nat \<Rightarrow> int list \<Rightarrow> nat \<Rightarrow> int \<times> int \<times> int \<Rightarrow> int \<times> int \<times> int" where
  "rotate_step w tab i = (\<lambda>(x, y, z).
     if z \<ge> 0
     then (cast w (x - drop_bit i y), cast w (y + drop_bit i x), cast w (z - tab ! i))
     else (cast w (x + drop_bit i y), cast w (y - drop_bit i x), cast w (z + tab ! i)))"

definition cordic_rotate :: "(real \<Rightarrow> real) \<Rightarrow> nat \<Rightarrow> nat \<Rightarrow> int \<Rightarrow> int \<times> int" where
  "cordic_rotate math_atan w n z =
     (case fold (rotate_step w (cordic_atan_table math_atan w n)) [0..<CORDIC_ITERATIONS n]
             (CORDIC_K w n, 0, z)
      of (x, y, z') \<Rightarrow> (x, y))"

definition vector_step :: "nat \<Rightarrow> int list \<Rightarrow> nat \<Rightarrow> int \<times> int \<times> int \<Rightarrow> int \<times> int \<times> int" where
  "vector_step w tab i = (\<lambda>(x, y, z).
     if y < 0
     then (cast w (x - drop_bit i y), cast w (y + drop_bit i x), cast w (z - tab ! i))
     else (cast w (x + drop_bit i y), cast w (y - drop_bit i x), cast w (z + tab ! i)))"

definition cordic_vector :: "(real \<Rightarrow> real) \<Rightarrow> nat \<Rightarrow> nat \<Rightarrow> int \<Rightarrow> int \<Rightarrow> int" where
  "cordic_vector math_atan w n x y =
     (case fold (vector_step w (cordic_atan_table math_atan w n)) [0..<CORDIC_ITERATIONS n]
             (x, y, 0)
      of (x', y', z) \<Rightarrow> z)"

subsection \<open>Sine, cosine and atan2\<close>

text \<open>
  The two range-reduction loops, \<open>while (angle > PI) angle -= 2 * PI\<close> and
  \<open>while (angle < -PI) angle += 2 * PI\<close>. The first argument bounds the number of
  times the body may run: a loop that needs more gives \<open>None\<close>.
\<close>

fun reduce_above :: "nat \<Rightarrow> nat \<Rightarrow> int \<Rightarrow> int \<Rightarrow> int option" where
  "reduce_above 0 w p angle = (if angle > p then None else Some angle)"
| "reduce_above (Suc k) w p angle =
     (if angle > p then reduce_above k w p (cast w (angle - 2 * p)) else Some angle)"

fun reduce_below :: "nat \<Rightarrow> nat \<Rightarrow> int \<Rightarrow> int \<Rightarrow> int option" where
  "reduce_below 0 w p angle = (if angle < sarith w (- p) then None else Some angle)"
| "reduce_below (Suc k) w p angle =
     (if angle < sarith w (- p) then reduce_below k w p (cast w (angle + 2 * p)) else Some angle)"

definition q_sin :: "(real \<Rightarrow> real) \<Rightarrow> nat \<Rightarrow> nat \<Rightarrow> nat \<Rightarrow> int \<Rightarrow> int option" where
  "q_sin math_atan fuel w n angle = do {
     p \<leftarrow> QM_PI w n;
     a1 \<leftarrow> reduce_above fuel w p angle;
     a2 \<leftarrow> reduce_below fuel w p a1;
     let negate = (a2 < 0);
     let a3 = (if a2 < 0 then cast w (- a2) else a2);
     let (x, y) = cordic_rotate math_atan w n a3;
     Some (if negate then cast w (- y) else y)
   }"

definition q_cos :: "(real \<Rightarrow> real) \<Rightarrow> nat \<Rightarrow> nat \<Rightarrow> nat \<Rightarrow> int \<Rightarrow> int option" where
  "q_cos math_atan fuel w n angle = do {
     p \<leftarrow> QM_PI w n;
     a1 \<leftarrow> reduce_above fuel w p angle;
     a2 \<leftarrow> reduce_below fuel w p a1;
     let a3 = (if a2 < 0 then cast w (- a2) else a2);
     let (x, y) = cordic_rotate math_atan w n a3;
     Some x
   }"

definition q_atan2 :: "(real \<Rightarrow> real) \<Rightarrow> nat \<Rightarrow> nat \<Rightarrow> int \<Rightarrow> int \<Rightarrow> int option" where
  "q_atan2 math_atan w n y x =
     (if x = 0 \<and> y = 0 then Some 0
      else let result = cordic_vector math_atan w n x y in
        if x < 0
        then do {
          p \<leftarrow> QM_PI w n;
          Some (if y \<ge> 0 then cast w (p - result) else cast w (- p + result))
        }
        else Some result)"

section \<open>Notions of the specification\<close>

text \<open>
  The signed reinterpretation of an unsigned \<open>w\<close>-bit value \<open>u\<close> (with
  \<open>0 \<le> u < 2^w\<close>): values from \<open>2^(w-1)\<close> on denote negative numbers.
\<close>

definition to_signed :: "nat \<Rightarrow> int \<Rightarrow> int" where
  "to_signed w u = (if u < 2 ^ (w - 1) then u else u - 2 ^ w)"

text \<open>
  The multiple of \<open>ONE = 2^n\<close> nearest to \<open>x\<close>, a tie going away from zero.
\<close>

definition round_half_away :: "nat \<Rightarrow> int \<Rightarrow> int" where
  "round_half_away n x = sgn x * ((\<bar>x\<bar> + 2 ^ (n - 1)) div 2 ^ n) * 2 ^ n"

text \<open>The formats \<open>main\<close> of \<open>generate_math_headers.py\<close> generates, as \<open>(m, n)\<close>.\<close>

definition formats :: "(nat \<times> nat) list" where
  "formats = [(15, 16), (8, 8), (7, 8), (0, 7), (0, 15), (23, 8), (31, 0)]"

text \<open>
  What the theorems that depend on the values of the table assume of \<open>math.atan\<close>
  at the argument \<open>2^-i\<close>: a relative error of at most \<open>2^-30\<close> against the real
  arctangent. A binary64 library function errs by a few units in the 53rd bit.
\<close>

definition atan_accurate :: "(real \<Rightarrow> real) \<Rightarrow> nat \<Rightarrow> bool" where
  "atan_accurate math_atan i \<longleftrightarrow>
     \<bar>math_atan (1 / 2 ^ i) - arctan (1 / 2 ^ i)\<bar> \<le> arctan (1 / 2 ^ i) / 2 ^ 30"

text \<open>The terms of the arctangent series, used to bound the table entries.\<close>

definition atan_term :: "real \<Rightarrow> nat \<Rightarrow> real" where
  "atan_term x k = 1 / real (k * 2 + 1) * x ^ (k * 2 + 1)"

section \<open>Conversions and ranges\<close>

text \<open>
  The two binary64 values are within half a unit in the last place of the decimal
  literals they stand for (\<open>2^-52\<close> for a value in \<open>[2, 4)\<close>, \<open>2^-54\<close> for one
  in \<open>[1/2, 1)\<close>), and their numerators have at most 53 bits.
\<close>

lemma pi_literal_nearest:
  "\<bar>pi_literal - 3.14159265358979323846\<bar> < 1 / 2 ^ 52" "(884279719003555::int) < 2 ^ 53"
  by (simp_all add: pi_literal_def)

lemma k_literal_nearest:
  "\<bar>k_literal - 0.60725293500888\<bar> < 1 / 2 ^ 54" "(85463252869551::int) < 2 ^ 53"
  by (simp_all add: k_literal_def)

lemma pi_literal_bounds: "3 \<le> pi_literal" "pi_literal < 4"
  by (simp_all add: pi_literal_def)

lemma two_power_split: "0 < w \<Longrightarrow> (2::int) ^ w = 2 * 2 ^ (w - 1)"
  by (cases w) simp_all

lemma cast_id: 
  assumes "0 < w" "in_range w v" shows "cast w v = v"
proof -
  have "0 \<le> v + 2 ^ (w - 1)" "v + 2 ^ (w - 1) < 2 ^ w"
    using assms by (simp_all add: in_range_def two_power_split)
  then have "(v + 2 ^ (w - 1)) mod 2 ^ w = v + 2 ^ (w - 1)" by simp
  then show ?thesis by (simp add: cast_def)
qed

lemma cast_in_range: 
  assumes "0 < w" shows "in_range w (cast w v)"
proof -
  have "0 \<le> (v + 2 ^ (w - 1)) mod 2 ^ w" "(v + 2 ^ (w - 1)) mod 2 ^ w < 2 * 2 ^ (w - 1)"
    using assms two_power_split [OF assms] pos_mod_bound [of "2 ^ w" "v + 2 ^ (w - 1)"] by simp_all
  then show ?thesis by (simp add: cast_def in_range_def)
qed

lemma cast_cong: "a mod 2 ^ w = b mod 2 ^ w \<Longrightarrow> cast w a = cast w b"
  unfolding cast_def by (metis mod_add_left_eq)

lemma cast_mod: "cast w (a mod 2 ^ w) = cast w a"
  by (rule cast_cong) simp

lemma cast_mod_self: "0 < w \<Longrightarrow> cast w v mod 2 ^ w = v mod 2 ^ w"
proof -
  assume w: "0 < w"
  have "cast w v = (v + 2 ^ (w - 1)) mod 2 ^ w - 2 ^ (w - 1)" by (simp add: cast_def)
  then have "cast w v mod 2 ^ w = ((v + 2 ^ (w - 1)) mod 2 ^ w - 2 ^ (w - 1)) mod 2 ^ w" by simp
  also have "\<dots> = (v + 2 ^ (w - 1) - 2 ^ (w - 1)) mod 2 ^ w" by (simp only: mod_diff_left_eq)
  finally show ?thesis by simp
qed

lemma cast_cast_ge: "0 < w \<Longrightarrow> w \<le> k \<Longrightarrow> cast w (cast k a) = cast w a"
proof (rule cast_cong)
  assume w: "0 < w" "w \<le> k"
  then have k: "0 < k" by simp
  have d: "(2::int) ^ w dvd 2 ^ k" using w by (simp add: le_imp_power_dvd)
  have "cast k a mod 2 ^ w = (cast k a mod 2 ^ k) mod 2 ^ w" using d by (simp add: mod_mod_cancel)
  also have "\<dots> = (a mod 2 ^ k) mod 2 ^ w" by (simp add: cast_mod_self [OF k])
  also have "\<dots> = a mod 2 ^ w" using d by (simp add: mod_mod_cancel)
  finally show "cast k a mod 2 ^ w = a mod 2 ^ w" .
qed

lemma cast_to_signed:
  assumes "0 < w" shows "cast w v = to_signed w (v mod 2 ^ w)"
proof -
  define u where "u = v mod 2 ^ w"
  define H where "H = (2::int) ^ (w - 1)"
  have W: "(2::int) ^ w = 2 * H" unfolding H_def by (rule two_power_split [OF assms])
  have H0: "0 < H" unfolding H_def by simp
  have "0 \<le> v mod 2 ^ w" "v mod 2 ^ w < 2 ^ w" by simp_all
  then have u: "0 \<le> u" "u < 2 * H" unfolding u_def W .
  have c: "cast w v = cast w u" unfolding u_def by (simp add: cast_mod)
  have ts: "to_signed w u = (if u < H then u else u - 2 * H)"
    unfolding to_signed_def H_def [symmetric] W ..
  have ir: "in_range w x \<longleftrightarrow> - H \<le> x \<and> x < H" for x
    unfolding in_range_def H_def ..
  show ?thesis
  proof (cases "u < H")
    case True
    with u H0 have "in_range w u" unfolding ir by linarith
    then have "cast w u = u" by (rule cast_id [OF assms])
    with True c ts show ?thesis unfolding u_def by simp
  next
    case False
    with u H0 have r: "in_range w (u - 2 * H)" unfolding ir by linarith
    have "cast w u = cast w (u - 2 ^ w)" by (rule cast_cong) simp
    also have "\<dots> = u - 2 * H" using cast_id [OF assms r] unfolding W .
    finally show ?thesis using False c ts unfolding u_def by simp
  qed
qed

lemma storage_bits_cases:
  "storage_bits m n = Some w \<Longrightarrow> (w = 8 \<or> w = 16 \<or> w = 32 \<or> w = 64) \<and> m + n + 1 \<le> w"
  by (auto simp: storage_bits_def total_bits_def split: if_splits)

lemma q_add_cast: 
  assumes "w = 8 \<or> w = 16 \<or> w = 32 \<or> w = 64" 
  shows "q_add w a b = cast w (a + b)"
proof -
  have w: "0 < w" using assms by auto
  have e: "(a mod 2 ^ w + b mod 2 ^ w) mod 2 ^ w = (a + b) mod 2 ^ w" by (simp add: mod_add_eq)
  show ?thesis
  proof (cases "w < 32")
    case True
    then have "q_add w a b = cast w (cast 32 (a mod 2 ^ w + b mod 2 ^ w))"
      by (simp add: q_add_def uadd_def ucast_def)
    also have "\<dots> = cast w (a mod 2 ^ w + b mod 2 ^ w)" using True w by (simp add: cast_cast_ge)
    also have "\<dots> = cast w (a + b)" by (rule cast_cong) (rule e)
    finally show ?thesis .
  next
    case False
    then have "q_add w a b = cast w ((a mod 2 ^ w + b mod 2 ^ w) mod 2 ^ w)"
      by (simp add: q_add_def uadd_def ucast_def)
    also have "\<dots> = cast w (a + b)" by (simp add: e cast_mod)
    finally show ?thesis .
  qed
qed

lemma q_sub_cast: 
  assumes "w = 8 \<or> w = 16 \<or> w = 32 \<or> w = 64" 
  shows "q_sub w a b = cast w (a - b)"
proof -
  have w: "0 < w" using assms by auto
  have e: "(a mod 2 ^ w - b mod 2 ^ w) mod 2 ^ w = (a - b) mod 2 ^ w" by (simp add: mod_diff_eq)
  show ?thesis
  proof (cases "w < 32")
    case True
    then have "q_sub w a b = cast w (cast 32 (a mod 2 ^ w - b mod 2 ^ w))"
      by (simp add: q_sub_def usub_def ucast_def)
    also have "\<dots> = cast w (a mod 2 ^ w - b mod 2 ^ w)" using True w by (simp add: cast_cast_ge)
    also have "\<dots> = cast w (a - b)" by (rule cast_cong) (rule e)
    finally show ?thesis .
  next
    case False
    then have "q_sub w a b = cast w ((a mod 2 ^ w - b mod 2 ^ w) mod 2 ^ w)"
      by (simp add: q_sub_def usub_def ucast_def)
    also have "\<dots> = cast w (a - b)" by (simp add: e cast_mod)
    finally show ?thesis .
  qed
qed

lemma in_range_nonneg: "0 \<le> v \<Longrightarrow> v < 2 ^ (w - 1) \<Longrightarrow> in_range w v"
proof -
  assume v: "0 \<le> v" "v < 2 ^ (w - 1)"
  have "(0::int) \<le> 2 ^ (w - 1)" by simp
  with v show ?thesis unfolding in_range_def by linarith
qed

lemma in_range_mono: "0 < w \<Longrightarrow> w \<le> k \<Longrightarrow> in_range w v \<Longrightarrow> in_range k v"
proof -
  assume a: "0 < w" "w \<le> k" "in_range w v"
  have "(2::int) ^ (w - 1) \<le> 2 ^ (k - 1)" using a by (intro power_increasing) auto
  with a(3) show ?thesis unfolding in_range_def by linarith
qed

lemma pow_wide: 
  assumes "0 < w" shows "(2::int) ^ (2 * w - 1) = 2 * (2 ^ (w - 1) * 2 ^ (w - 1))"
proof -
  have e: "2 * w - 1 = Suc ((w - 1) + (w - 1))" using assms by simp
  have "(2::int) ^ (2 * w - 1) = 2 ^ Suc ((w - 1) + (w - 1))" by (simp only: e)
  also have "\<dots> = 2 * (2 ^ (w - 1) * 2 ^ (w - 1))" by (simp only: power_Suc power_add)
  finally show ?thesis .
qed

lemma shift_bias_in_wide:
  assumes "0 < w" "n < w" "in_range w a" "0 \<le> c" "c < 2 ^ n"
  shows "in_range (2 * w) (a * 2 ^ n + c)"
proof -
  define H where "H = (2::int) ^ (w - 1)"
  define P where "P = (2::int) ^ n"
  have H0: "0 < H" unfolding H_def by simp
  have P0: "0 < P" unfolding P_def by simp
  have PH: "P \<le> H" unfolding P_def H_def using assms by (intro power_increasing) auto
  have a: "- H \<le> a" "a \<le> H - 1" using assms(3) unfolding in_range_def H_def by simp_all
  have c: "0 \<le> c" "c < P" using assms unfolding P_def by simp_all
  have W: "(2::int) ^ (2 * w - 1) = 2 * (H * H)" unfolding H_def by (rule pow_wide [OF assms(1)])
  define aP where "aP = a * P"
  define HP where "HP = H * P"
  define HH where "HH = H * H"
  have "a * P \<le> (H - 1) * P" using a P0 by (intro mult_right_mono) simp_all
  then have u1: "aP \<le> HP - P" unfolding aP_def HP_def by (simp add: algebra_simps)
  have u2: "HP \<le> HH" unfolding HP_def HH_def using PH H0 by (intro mult_left_mono) simp_all
  have "(- H) * P \<le> a * P" using a P0 by (intro mult_right_mono) simp_all
  then have l1: "- HP \<le> aP" unfolding aP_def HP_def by simp
  have h: "0 < HH" unfolding HH_def using H0 by simp
  from u1 u2 l1 h c P0 have "- (2 * HH) \<le> aP + c \<and> aP + c < 2 * HH"
    by linarith
  then have "- (2 * (H * H)) \<le> a * P + c \<and> a * P + c < 2 * (H * H)"
    unfolding aP_def HH_def .
  then show ?thesis unfolding in_range_def W P_def .
qed

lemma shift_in_wide:
  assumes "0 < w" "n < w" "in_range w a"
  shows "in_range (2 * w) (a * 2 ^ n)"
  using shift_bias_in_wide [OF assms, of 0] by simp

lemma q_div_nonzero:
  assumes sb: "storage_bits m n = Some w" and a: "in_range w a" and b: "b \<noteq> 0"
  shows "q_div w n a b = Some (cast w (c_div (a * 2 ^ n) b))"
proof -
  from storage_bits_cases [OF sb] have w: "0 < w" and n: "n < w" by auto
  have nn: "int n < int (promo (wide_bits w))" using n by (simp add: promo_def wide_bits_def)
  have r: "in_range (wide_bits w) (a * 2 ^ n)"
    unfolding wide_bits_def by (rule shift_in_wide [OF w n a])
  have ww: "0 < wide_bits w" "wide_bits w \<le> promo (wide_bits w)" "w \<le> promo (wide_bits w)"
    using w by (simp_all add: wide_bits_def promo_def)
  have d: "cast (wide_bits w) (cast (promo (wide_bits w)) (a * 2 ^ n)) = a * 2 ^ n"
    using ww r by (simp add: cast_cast_ge cast_id)
  have "q_div w n a b = Some (cast w (cast (promo (wide_bits w)) (c_div (a * 2 ^ n) b)))"
    using b nn d by (simp add: q_div_def shl_def sarith_def)
  then show ?thesis using w ww by (simp add: cast_cast_ge)
qed

lemma q_div_zero: "q_div w n a 0 = Some (if a \<ge> 0 then Q_MAX w else Q_MIN w)"
  by (simp add: q_div_def)

section \<open>Addition and subtraction wrap around\<close>

text \<open>
  Claim C6. For every format with storage width \<open>w\<close> and all \<open>a\<close>, \<open>b\<close>,
  \<open>add(a, b)\<close> is the signed reinterpretation of \<open>(a + b) mod 2^w\<close> and
  \<open>sub(a, b)\<close> that of \<open>(a - b) mod 2^w\<close>: overflow wraps, nothing saturates and
  nothing fails. The instance below is Q7.8, where \<open>add(32767, 1) = -32768\<close>.
\<close>

theorem add_sub_wraparound:
  assumes "storage_bits m n = Some w"
  shows "q_add w a b = to_signed w ((a + b) mod 2 ^ w)
       \<and> q_sub w a b = to_signed w ((a - b) mod 2 ^ w)"
proof -
  from storage_bits_cases [OF assms] have w: "w = 8 \<or> w = 16 \<or> w = 32 \<or> w = 64" by simp
  then have "0 < w" by auto
  then show ?thesis
    by (simp add: q_add_cast [OF w] q_sub_cast [OF w] cast_to_signed)
qed

theorem add_sub_wraparound_witness:
  "storage_bits 7 8 = Some 16
   \<and> q_add 16 32767 1 = to_signed 16 ((32767 + 1) mod 2 ^ 16)
   \<and> q_add 16 32767 1 = - 32768
   \<and> q_sub 16 (- 32768) 1 = 32767"
proof -
  have h: "storage_bits 7 8 = Some 16" by (simp add: storage_bits_def total_bits_def)
  show ?thesis
    using h add_sub_wraparound [OF h, of 32767 1] add_sub_wraparound [OF h, of "- 32768" 1]
    by (simp add: to_signed_def)
qed

section \<open>Division\<close>

text \<open>
  Claim C5, as amended. For every format and every value \<open>a\<close>, \<open>div(a, 0)\<close> is
  \<open>MAX\<close> when \<open>a \<ge> 0\<close> and \<open>MIN\<close> when \<open>a < 0\<close>. For \<open>b \<noteq> 0\<close>,
  \<open>div(a, b)\<close> is the quotient \<open>(a * 2^n) / b\<close>, truncated toward zero at the
  accumulator width and then converted to the storage type: it is the signed
  reinterpretation of that quotient modulo \<open>2^w\<close>, and the quotient itself exactly
  when the quotient is a value of the storage type.
\<close>

theorem div_zero_saturates_nonzero_converts:
  assumes "storage_bits m n = Some w" and "in_range w a"
  shows "q_div w n a 0 = Some (if 0 \<le> a then Q_MAX w else Q_MIN w)
       \<and> (b \<noteq> 0 \<longrightarrow>
            q_div w n a b = Some (to_signed w (c_div (a * 2 ^ n) b mod 2 ^ w)))
       \<and> (b \<noteq> 0 \<and> in_range w (c_div (a * 2 ^ n) b) \<longrightarrow>
            q_div w n a b = Some (c_div (a * 2 ^ n) b))"
proof -
  from storage_bits_cases [OF assms(1)] have w: "0 < w" by auto
  have nz: "q_div w n a b = Some (cast w (c_div (a * 2 ^ n) b))" if "b \<noteq> 0"
    using q_div_nonzero [OF assms that] .
  show ?thesis
    using nz by (auto simp: q_div_zero cast_to_signed [OF w, symmetric] cast_id [OF w])
qed

theorem div_zero_saturates_nonzero_converts_witness:
  "storage_bits 7 8 = Some 16 \<and> in_range 16 32767 \<and> in_range 16 (- 5) \<and> in_range 16 384
   \<and> q_div 16 8 32767 0 = Some 32767
   \<and> q_div 16 8 (- 5) 0 = Some (- 32768)
   \<and> q_div 16 8 32767 1 = Some (to_signed 16 (c_div (32767 * 2 ^ 8) 1 mod 2 ^ 16))
   \<and> in_range 16 (c_div (384 * 2 ^ 8) 512)
   \<and> q_div 16 8 384 512 = Some 192"
proof -
  have h: "storage_bits 7 8 = Some 16" by (simp add: storage_bits_def total_bits_def)
  have r: "in_range 16 32767" "in_range 16 (- 5)" "in_range 16 384"
    by (simp_all add: in_range_def)
  have q: "c_div (384 * 2 ^ 8) 512 = 192" by (simp add: c_div_def)
  show ?thesis
    using h r q
      div_zero_saturates_nonzero_converts [OF h r(1), of 1]
      div_zero_saturates_nonzero_converts [OF h r(2), of 1]
      div_zero_saturates_nonzero_converts [OF h r(3), of 512]
    by (simp add: Q_MAX_def Q_MIN_def in_range_def to_signed_def)
qed

text \<open>
  Claim C5 as stated fails: in Q7.8, \<open>div(32767, 1)\<close> is \<open>-256\<close>, while the
  quotient \<open>(32767 * 2^8) / 1\<close> truncated toward zero is \<open>8388352\<close>.
\<close>

theorem div_not_truncated_quotient_counterexample:
  "storage_bits 7 8 = Some 16 \<and> in_range 16 32767 \<and> in_range 16 1
   \<and> c_div (32767 * 2 ^ 8) 1 = 8388352
   \<and> q_div 16 8 32767 1 = Some (- 256)"
  by (simp add: storage_bits_def total_bits_def in_range_def c_div_def q_div_def shl_def
      promo_def wide_bits_def sarith_def cast_def)


section \<open>Multiplication by \<open>ONE\<close>\<close>

lemma q_mul_ONE:
  assumes sb: "storage_bits m n = Some w" and one: "in_range w (2 ^ n)"
    and n1: "1 \<le> n" and n31: "n \<le> 31" and x: "in_range w x"
  shows "q_mul w n x (Q_ONE w n) = Some x"
proof -
  from storage_bits_cases [OF sb] have w: "0 < w" and n: "n < w" by auto
  have ww: "0 < wide_bits w" "wide_bits w \<le> promo (wide_bits w)" "0 < promo (wide_bits w)"
    using w by (simp_all add: wide_bits_def promo_def)
  have one: "Q_ONE w n = 2 ^ n" using one by (simp add: Q_ONE_def cast_id [OF w])
  have r: "in_range (wide_bits w) (x * 2 ^ n)"
    unfolding wide_bits_def by (rule shift_in_wide [OF w n x])
  have prod: "cast (wide_bits w) (x * 2 ^ n) = x * 2 ^ n" using r ww by (simp add: cast_id)
  have "(2::int) ^ (n - 1) < 2 ^ (32 - 1)" using n31 n1 by (intro power_strict_increasing) auto
  then have "in_range 32 (2 ^ (n - 1))" by (intro in_range_nonneg) simp_all
  then have b32: "cast 32 (2 ^ (n - 1)) = 2 ^ (n - 1)" by (simp add: cast_id)
  have nn1: "nat (int n - 1) = n - 1" by simp
  have bias: "shl 32 1 (int n - 1) = Some (2 ^ (n - 1))"
    using n1 n31 b32 by (simp add: shl_def nn1)
  have "(2::int) ^ (n - 1) < 2 ^ n" using n1 by (intro power_strict_increasing) auto
  then have "in_range (wide_bits w) (x * 2 ^ n + 2 ^ (n - 1))"
    unfolding wide_bits_def by (intro shift_bias_in_wide [OF w n x]) simp_all
  then have sr: "in_range (promo (wide_bits w)) (x * 2 ^ n + 2 ^ (n - 1))" 
    by (rule in_range_mono [OF ww(1) ww(2)])
  have sa: "sarith (wide_bits w) (x * 2 ^ n + 2 ^ (n - 1)) = x * 2 ^ n + 2 ^ (n - 1)"
    unfolding sarith_def using sr ww by (simp add: cast_id)
  have nn: "int n < int (promo (wide_bits w))" using n by (simp add: promo_def wide_bits_def)
  have "(2::int) ^ n = 2 * 2 ^ (n - 1)" using n1 by (intro two_power_split) simp
  then have dv: "(x * 2 ^ n + 2 ^ (n - 1)) div (2::int) ^ n = x" by simp
  have "q_mul w n x (Q_ONE w n) = Some (cast w x)"
    unfolding q_mul_def one Let_def prod bias using nn sa dv
    by (simp add: shr_def drop_bit_int_def)
  then show ?thesis using x w by (simp add: cast_id)
qed

lemma ONE_representable:
  assumes sb: "storage_bits m n = Some w" and m: "1 \<le> m"
  shows "in_range w (2 ^ n)"
proof -
  from storage_bits_cases [OF sb] m have "n < w - 1" by auto
  then have "(2::int) ^ n < 2 ^ (w - 1)" by (intro power_strict_increasing) auto
  then show ?thesis by (intro in_range_nonneg) simp_all
qed

text \<open>
  Claim C8, as amended. For every format in which \<open>ONE = 2^n\<close> is a value of the
  storage type (every format with \<open>m \<ge> 1\<close> is one) and \<open>1 \<le> n \<le> 31\<close>, and every
  value \<open>x\<close> including \<open>MAX\<close> and \<open>MIN\<close>, \<open>mul(x, ONE) = x\<close> exactly.
\<close>

theorem mul_one_exact:
  assumes "storage_bits m n = Some w" and "1 \<le> n" and "n \<le> 31" and "in_range w x"
  shows "(1 \<le> m \<longrightarrow> in_range w (2 ^ n))
       \<and> (in_range w (2 ^ n) \<longrightarrow> q_mul w n x (Q_ONE w n) = Some x)"
  using ONE_representable [OF assms(1)] q_mul_ONE [OF assms(1) _ assms(2) assms(3) assms(4)]
  by blast

theorem mul_one_exact_witness:
  "storage_bits 7 8 = Some 16 \<and> (1::nat) \<le> 8 \<and> (8::nat) \<le> 31
   \<and> in_range 16 (Q_MAX 16) \<and> in_range 16 (Q_MIN 16)
   \<and> (1::nat) \<le> 7 \<and> in_range 16 (2 ^ 8)
   \<and> q_mul 16 8 (Q_MAX 16) (Q_ONE 16 8) = Some (Q_MAX 16)
   \<and> q_mul 16 8 (Q_MIN 16) (Q_ONE 16 8) = Some (Q_MIN 16)"
proof -
  have h: "storage_bits 7 8 = Some 16" by (simp add: storage_bits_def total_bits_def)
  have r: "in_range 16 (Q_MAX 16)" "in_range 16 (Q_MIN 16)" "in_range 16 (2 ^ 8)"
    by (simp_all add: in_range_def Q_MAX_def Q_MIN_def)
  have n: "(1::nat) \<le> 8" "(8::nat) \<le> 31" by simp_all
  show ?thesis
    using h r n mul_one_exact [OF h n r(1)] mul_one_exact [OF h n r(2)] by simp
qed

text \<open>
  Claim C8 as stated fails for Q0.7, which \<open>generate_headers.py\<close> generates: there
  \<open>ONE\<close> is \<open>(int8_t)128 = -128\<close>, and \<open>mul(1, ONE) = -1\<close>.
\<close>

theorem mul_one_Q0_7_counterexample:
  "storage_bits 0 7 = Some 8 \<and> in_range 8 1 \<and> Q_ONE 8 7 = - 128
   \<and> q_mul 8 7 1 (Q_ONE 8 7) = Some (- 1)"
  by (simp add: storage_bits_def total_bits_def in_range_def q_mul_def shl_def shr_def
      promo_def wide_bits_def sarith_def cast_def Q_ONE_def)

section \<open>The arctangent table\<close>

subsection \<open>Bounds on the arctangent from its alternating series\<close>

lemma atan_term_nonneg: "0 \<le> x \<Longrightarrow> 0 \<le> atan_term x k"
  by (simp add: atan_term_def)

lemma atan_term_decreasing:
  assumes "0 \<le> x" "x \<le> 1"
  shows "atan_term x (Suc k) \<le> atan_term x k"
proof -
  have p: "x ^ (Suc k * 2 + 1) \<le> x ^ (k * 2 + 1)"
    using assms by (intro power_decreasing) auto
  have c: "1 / real (Suc k * 2 + 1) \<le> 1 / real (k * 2 + 1)"
    by (simp add: field_simps)
  have "1 / real (Suc k * 2 + 1) * x ^ (Suc k * 2 + 1) \<le> 1 / real (k * 2 + 1) * x ^ (k * 2 + 1)"
    using p c assms by (intro mult_mono) auto
  then show ?thesis by (simp only: atan_term_def)
qed

lemma arctan_alternating:
  assumes "0 \<le> x" "x \<le> 1"
  shows "(\<Sum>k<2 * j. (- 1) ^ k * atan_term x k) \<le> arctan x"
    and "arctan x \<le> (\<Sum>k<2 * j + 1. (- 1) ^ k * atan_term x k)"
proof -
  have ab: "\<bar>x\<bar> \<le> 1" using assms by simp
  have z: "atan_term x \<longlonglongrightarrow> 0"
    using zeroseq_arctan_series [OF ab] by (simp add: atan_term_def [abs_def])
  have s: "arctan x = (\<Sum>k. (- 1) ^ k * atan_term x k)"
    using arctan_series [OF ab] by (simp add: atan_term_def)
  have nn: "0 \<le> atan_term x k" for k by (rule atan_term_nonneg [OF assms(1)])
  have dc: "atan_term x (Suc k) \<le> atan_term x k" for k by (rule atan_term_decreasing [OF assms])
  show "(\<Sum>k<2 * j. (- 1) ^ k * atan_term x k) \<le> arctan x"
    unfolding s using summable_Leibniz'(2) [of "atan_term x", OF z nn dc] .
  show "arctan x \<le> (\<Sum>k<2 * j + 1. (- 1) ^ k * atan_term x k)"
    unfolding s using summable_Leibniz'(4) [of "atan_term x", OF z nn dc] .
qed

lemma arctan_lower3: "0 \<le> x \<Longrightarrow> x \<le> 1 \<Longrightarrow> x - x ^ 3 / 3 \<le> arctan x"
  using arctan_alternating(1) [of x 1] by (simp add: atan_term_def eval_nat_numeral)

lemma arctan_upper5: "0 \<le> x \<Longrightarrow> x \<le> 1 \<Longrightarrow> arctan x \<le> x - x ^ 3 / 3 + x ^ 5 / 5"
  using arctan_alternating(2) [of x 1] by (simp add: atan_term_def eval_nat_numeral)

lemma arctan_lower7:
  "0 \<le> x \<Longrightarrow> x \<le> 1 \<Longrightarrow> x - x ^ 3 / 3 + x ^ 5 / 5 - x ^ 7 / 7 \<le> arctan x"
  using arctan_alternating(1) [of x 2] by (simp add: atan_term_def eval_nat_numeral)

lemma arctan_one_split: "arctan 1 = 5 * arctan (1 / 7) + 2 * arctan (3 / 79)"
  using machin_Euler arctan_one by simp

lemma arctan_7: "(0.14188::real) \<le> arctan (1 / 7)" "arctan (1 / 7) \<le> (0.1419::real)"
  using arctan_lower3 [of "1 / 7"] arctan_upper5 [of "1 / 7"] by (simp_all add: power_divide)

lemma arctan_79: "(0.03795::real) \<le> arctan (3 / 79)" "arctan (3 / 79) \<le> (0.03796::real)"
  using arctan_lower3 [of "3 / 79"] arctan_upper5 [of "3 / 79"] by (simp_all add: power_divide)

lemma arctan_2: "(0.4634::real) \<le> arctan (1 / 2)" "arctan (1 / 2) \<le> (0.4646::real)"
  using arctan_lower7 [of "1 / 2"] arctan_upper5 [of "1 / 2"] by (simp_all add: power_divide)

lemma arctan_4: "(0.2447::real) \<le> arctan (1 / 4)" "arctan (1 / 4) \<le> (0.245::real)"
  using arctan_lower3 [of "1 / 4"] arctan_upper5 [of "1 / 4"] by (simp_all add: power_divide)

lemma arctan_8: "(0.1243::real) \<le> arctan (1 / 8)" "arctan (1 / 8) \<le> (0.1244::real)"
  using arctan_lower3 [of "1 / 8"] arctan_upper5 [of "1 / 8"] by (simp_all add: power_divide)

lemma arctan_16: "(0.0624::real) \<le> arctan (1 / 16)" "arctan (1 / 16) \<le> (0.06245::real)"
  using arctan_lower3 [of "1 / 16"] arctan_upper5 [of "1 / 16"] by (simp_all add: power_divide)

lemma arctan_32: "(0.0312::real) \<le> arctan (1 / 32)" "arctan (1 / 32) \<le> (0.031245::real)"
  using arctan_lower3 [of "1 / 32"] arctan_upper5 [of "1 / 32"] by (simp_all add: power_divide)

lemma arctan_64: "(0.0156::real) \<le> arctan (1 / 64)" "arctan (1 / 64) \<le> (0.015624::real)"
  using arctan_lower3 [of "1 / 64"] arctan_upper5 [of "1 / 64"] by (simp_all add: power_divide)

lemma arctan_128: "(0.0078::real) \<le> arctan (1 / 128)" "arctan (1 / 128) \<le> (0.0078124::real)"
  using arctan_lower3 [of "1 / 128"] arctan_upper5 [of "1 / 128"] by (simp_all add: power_divide)

subsection \<open>An accurate \<open>math.atan\<close> stays within known bounds\<close>

lemma arctan_1: "(0.7853::real) \<le> arctan 1" "arctan 1 \<le> (0.78542::real)"
  using arctan_7 arctan_79 by (simp_all add: arctan_one_split)

lemma atan_accurate_arctan: "atan_accurate arctan i"
  by (simp add: atan_accurate_def)

lemma atan_accurate_bounds:
  assumes "atan_accurate f i" and "lo \<le> arctan (1 / 2 ^ i)" and "arctan (1 / 2 ^ i) \<le> hi"
  shows "lo - hi / 2 ^ 30 \<le> f (1 / 2 ^ i)" and "f (1 / 2 ^ i) \<le> hi + hi / 2 ^ 30"
proof -
  define a where "a = arctan (1 / 2 ^ i)"
  have e: "\<bar>f (1 / 2 ^ i) - a\<bar> \<le> a / 2 ^ 30"
    using assms(1) unfolding atan_accurate_def a_def .
  have "a / 2 ^ 30 \<le> hi / 2 ^ 30" using assms(3) unfolding a_def by (intro divide_right_mono) simp_all
  with e assms(2) assms(3) show "lo - hi / 2 ^ 30 \<le> f (1 / 2 ^ i)" "f (1 / 2 ^ i) \<le> hi + hi / 2 ^ 30"
    unfolding a_def by linarith+
qed

lemma atan_accurate_unit:
  assumes "atan_accurate f i"
  shows "0 \<le> f (1 / 2 ^ i)" and "f (1 / 2 ^ i) < 1"
proof -
  define a where "a = arctan (1 / 2 ^ i)"
  have x: "(0::real) \<le> 1 / 2 ^ i" "(1::real) / 2 ^ i \<le> 1" by (simp_all add: field_simps)
  have a0: "0 \<le> a" unfolding a_def using x(1) by (simp only: zero_le_arctan_iff)
  have "a \<le> arctan 1" unfolding a_def using x(2) by (simp only: arctan_le_iff)
  with arctan_1(2) have a1: "a \<le> 0.78542" by linarith
  have e: "\<bar>f (1 / 2 ^ i) - a\<bar> \<le> a / 2 ^ 30"
    using assms unfolding atan_accurate_def a_def .
  have s: "a / 2 ^ 30 \<le> a" using a0 by (simp add: field_simps)
  from e s show "0 \<le> f (1 / 2 ^ i)" by linarith
  have a8: "a \<le> 79 / 100" using a1 by simp
  define d where "d = a / 2 ^ 30"
  have d: "d \<le> a / 4" unfolding d_def using a0 by (intro divide_left_mono) simp_all
  from e have "\<bar>f (1 / 2 ^ i) - a\<bar> \<le> d" unfolding d_def .
  with d a8 show "f (1 / 2 ^ i) < 1" by linarith
qed

subsection \<open>The table of Q7.8\<close>

lemma c_trunc_eq:
  "real_of_int k \<le> r \<Longrightarrow> r < real_of_int k + 1 \<Longrightarrow> 0 \<le> k \<Longrightarrow> c_trunc r = k"
  unfolding c_trunc_def by (auto simp: floor_eq_iff)

lemma atan_fixed_8_0:
  assumes "atan_accurate f 0"
  shows "c_trunc (f 1 * 256) = 201"
proof -
  have "0.7853 - 0.78542 / 2 ^ 30 \<le> f (1 / 2 ^ 0)" "f (1 / 2 ^ 0) \<le> 0.78542 + 0.78542 / 2 ^ 30"
    using atan_accurate_bounds [OF assms, of "0.7853" "0.78542"] arctan_1 by simp_all
  then show ?thesis by (intro c_trunc_eq) simp_all
qed

lemma atan_fixed_8_1:
  assumes "atan_accurate f 1"
  shows "c_trunc (f (1 / 2) * 256) = 118"
proof -
  have "0.4634 - 0.4646 / 2 ^ 30 \<le> f (1 / 2 ^ 1)" "f (1 / 2 ^ 1) \<le> 0.4646 + 0.4646 / 2 ^ 30"
    using atan_accurate_bounds [OF assms, of "0.4634" "0.4646"] arctan_2 by simp_all
  then show ?thesis by (intro c_trunc_eq) simp_all
qed

lemma atan_fixed_8_2:
  assumes "atan_accurate f 2"
  shows "c_trunc (f (1 / 4) * 256) = 62"
proof -
  have "0.2447 - 0.245 / 2 ^ 30 \<le> f (1 / 2 ^ 2)" "f (1 / 2 ^ 2) \<le> 0.245 + 0.245 / 2 ^ 30"
    using atan_accurate_bounds [OF assms, of "0.2447" "0.245"] arctan_4 by simp_all
  then show ?thesis by (intro c_trunc_eq) simp_all
qed

lemma atan_fixed_8_3:
  assumes "atan_accurate f 3"
  shows "c_trunc (f (1 / 8) * 256) = 31"
proof -
  have "0.1243 - 0.1244 / 2 ^ 30 \<le> f (1 / 2 ^ 3)" "f (1 / 2 ^ 3) \<le> 0.1244 + 0.1244 / 2 ^ 30"
    using atan_accurate_bounds [OF assms, of "0.1243" "0.1244"] arctan_8 by simp_all
  then show ?thesis by (intro c_trunc_eq) simp_all
qed

lemma atan_fixed_8_4:
  assumes "atan_accurate f 4"
  shows "c_trunc (f (1 / 16) * 256) = 15"
proof -
  have "0.0624 - 0.06245 / 2 ^ 30 \<le> f (1 / 2 ^ 4)" "f (1 / 2 ^ 4) \<le> 0.06245 + 0.06245 / 2 ^ 30"
    using atan_accurate_bounds [OF assms, of "0.0624" "0.06245"] arctan_16 by simp_all
  then show ?thesis by (intro c_trunc_eq) simp_all
qed

lemma atan_fixed_8_5:
  assumes "atan_accurate f 5"
  shows "c_trunc (f (1 / 32) * 256) = 7"
proof -
  have "0.0312 - 0.031245 / 2 ^ 30 \<le> f (1 / 2 ^ 5)" "f (1 / 2 ^ 5) \<le> 0.031245 + 0.031245 / 2 ^ 30"
    using atan_accurate_bounds [OF assms, of "0.0312" "0.031245"] arctan_32 by simp_all
  then show ?thesis by (intro c_trunc_eq) simp_all
qed

lemma atan_fixed_8_6:
  assumes "atan_accurate f 6"
  shows "c_trunc (f (1 / 64) * 256) = 3"
proof -
  have "0.0156 - 0.015624 / 2 ^ 30 \<le> f (1 / 2 ^ 6)" "f (1 / 2 ^ 6) \<le> 0.015624 + 0.015624 / 2 ^ 30"
    using atan_accurate_bounds [OF assms, of "0.0156" "0.015624"] arctan_64 by simp_all
  then show ?thesis by (intro c_trunc_eq) simp_all
qed

lemma atan_fixed_8_7:
  assumes "atan_accurate f 7"
  shows "c_trunc (f (1 / 128) * 256) = 1"
proof -
  have "0.0078 - 0.0078124 / 2 ^ 30 \<le> f (1 / 2 ^ 7)" "f (1 / 2 ^ 7) \<le> 0.0078124 + 0.0078124 / 2 ^ 30"
    using atan_accurate_bounds [OF assms, of "0.0078" "0.0078124"] arctan_128 by simp_all
  then show ?thesis by (intro c_trunc_eq) simp_all
qed

lemma atan_table_8:
  assumes "\<And>i. i < 8 \<Longrightarrow> atan_accurate f i"
  shows "atan_table f 8 = [201, 118, 62, 31, 15, 7, 3, 1]"
  using assms
  by (simp add: atan_table_def upt_rec atan_fixed_8_0 atan_fixed_8_1 atan_fixed_8_2
      atan_fixed_8_3 atan_fixed_8_4 atan_fixed_8_5 atan_fixed_8_6 atan_fixed_8_7)

lemma k_fixed_8: "k_fixed 8 = 155"
  by (simp add: k_fixed_def k_literal_def c_trunc_def)

lemma cordic_atan_table_Q7_8:
  assumes "\<And>i. i < 8 \<Longrightarrow> atan_accurate f i"
  shows "cordic_atan_table f 16 8 = [201, 118, 62, 31, 15, 7, 3, 1]"
  by (simp add: cordic_atan_table_def generate_cordic_tables_def atan_table_8 [OF assms]
      CORDIC_ITERATIONS_def cast_def)

lemma cordic_rotate_Q7_8_zero:
  assumes "\<And>i. i < 8 \<Longrightarrow> atan_accurate f i"
  shows "cordic_rotate f 16 8 0 = (255, - 1)"
  by (simp add: cordic_rotate_def cordic_atan_table_Q7_8 [OF assms] CORDIC_ITERATIONS_def
      CORDIC_K_def k_fixed_8 upt_rec rotate_step_def cast_def)

lemma QM_PI_Q7_8: "QM_PI 16 8 = Some 804"
  by (simp add: QM_PI_def pi_literal_def shl_def cast_def cast_double_def c_trunc_def
      in_range_def)

lemma q_sin_Q7_8_zero:
  assumes "\<And>i. i < 8 \<Longrightarrow> atan_accurate f i"
  shows "q_sin f fuel 16 8 0 = Some (- 1)"
  by (cases fuel)
    (simp_all add: q_sin_def QM_PI_Q7_8 cordic_rotate_Q7_8_zero [OF assms] sarith_def
      promo_def cast_def)

lemma q_cos_Q7_8_zero:
  assumes "\<And>i. i < 8 \<Longrightarrow> atan_accurate f i"
  shows "q_cos f fuel 16 8 0 = Some 255"
  by (cases fuel)
    (simp_all add: q_cos_def QM_PI_Q7_8 cordic_rotate_Q7_8_zero [OF assms] sarith_def
      promo_def cast_def)

subsection \<open>Length and entries for every format\<close>

lemma length_atan_table: "length (atan_table f n) = min n 32"
  by (simp add: atan_table_def)

lemma nth_atan_table_trunc:
  "i < min n 32 \<Longrightarrow> atan_table f n ! i = c_trunc (f (1 / 2 ^ i) * 2 ^ n)"
  by (simp add: atan_table_def)

lemma atan_entry_bounds:
  assumes "atan_accurate f i"
  shows "0 \<le> f (1 / 2 ^ i) * 2 ^ n" and "f (1 / 2 ^ i) * 2 ^ n < 2 ^ n"
  using atan_accurate_unit [OF assms] by simp_all

lemma atan_entry_range:
  assumes "atan_accurate f i"
  shows "0 \<le> \<lfloor>f (1 / 2 ^ i) * 2 ^ n\<rfloor>" and "\<lfloor>f (1 / 2 ^ i) * 2 ^ n\<rfloor> < 2 ^ n"
proof -
  show "0 \<le> \<lfloor>f (1 / 2 ^ i) * 2 ^ n\<rfloor>" using atan_entry_bounds(1) [OF assms, of n] by simp
  have "f (1 / 2 ^ i) * 2 ^ n < real_of_int (2 ^ n)"
    using atan_entry_bounds(2) [OF assms, of n] by simp
  then show "\<lfloor>f (1 / 2 ^ i) * 2 ^ n\<rfloor> < 2 ^ n" by (simp only: floor_less_iff)
qed

lemma nth_atan_table:
  assumes "i < min n 32" and "atan_accurate f i"
  shows "atan_table f n ! i = \<lfloor>f (1 / 2 ^ i) * 2 ^ n\<rfloor>"
  using atan_entry_bounds(1) [OF assms(2), of n]
  by (simp add: nth_atan_table_trunc [OF assms(1)] c_trunc_def)

lemma floor_le_round: "\<lfloor>r\<rfloor> \<le> round (r::real)" "round r \<le> \<lfloor>r\<rfloor> + 1"
  unfolding round_def by linarith+

lemma length_cordic_atan_table: "length (cordic_atan_table f w n) = CORDIC_ITERATIONS n"
  by (simp add: cordic_atan_table_def generate_cordic_tables_def length_atan_table
      CORDIC_ITERATIONS_def)

lemma nth_cordic_atan_table:
  assumes sb: "storage_bits m n = Some w" and i: "i < CORDIC_ITERATIONS n"
    and acc: "atan_accurate f i"
  shows "cordic_atan_table f w n ! i = atan_table f n ! i"
proof -
  from storage_bits_cases [OF sb] have w: "0 < w" and n: "n \<le> w - 1" by auto
  have i32: "i < min n 32" using i by (simp add: CORDIC_ITERATIONS_def)
  have e: "atan_table f n ! i = \<lfloor>f (1 / 2 ^ i) * 2 ^ n\<rfloor>" by (rule nth_atan_table [OF i32 acc])
  have "(2::int) ^ n \<le> 2 ^ (w - 1)" using n by (intro power_increasing) auto
  with atan_entry_range [OF acc, of n] have "in_range w (atan_table f n ! i)"
    unfolding e by (intro in_range_nonneg) linarith+
  then have "cast w (atan_table f n ! i) = atan_table f n ! i" by (rule cast_id [OF w])
  then show ?thesis using i i32
    by (simp add: cordic_atan_table_def generate_cordic_tables_def length_atan_table
        CORDIC_ITERATIONS_def)
qed

lemma fold_steps_cong:
  assumes "\<And>i s. i < N \<Longrightarrow> f i s = g i s"
  shows "fold f [0..<N] s = fold g [0..<N] s"
proof -
  have "\<forall>i \<in> set [0..<N]. f i = g i" using assms by auto
  then show ?thesis by (induction "[0..<N]" arbitrary: s) (metis fold_cong)+
qed

lemma rotate_step_cong: "tab ! i = tab' ! i \<Longrightarrow> rotate_step w tab i s = rotate_step w tab' i s"
  by (cases s) (simp add: rotate_step_def)

lemma vector_step_cong: "tab ! i = tab' ! i \<Longrightarrow> vector_step w tab i s = vector_step w tab' i s"
  by (cases s) (simp add: vector_step_def)

lemma cordic_rotate_table:
  assumes sb: "storage_bits m n = Some w"
    and acc: "\<And>i. i < min n 16 \<Longrightarrow> atan_accurate f i"
  shows "cordic_rotate f w n z =
    (case fold (rotate_step w (atan_table f n)) [0..<min n 16] (CORDIC_K w n, 0, z)
     of (x, y, z') \<Rightarrow> (x, y))"
proof -
  have "fold (rotate_step w (cordic_atan_table f w n)) [0..<CORDIC_ITERATIONS n] s
      = fold (rotate_step w (atan_table f n)) [0..<CORDIC_ITERATIONS n] s" for s
  proof (rule fold_steps_cong)
    fix i s' assume i: "i < CORDIC_ITERATIONS n"
    then have "atan_accurate f i" using acc by (simp add: CORDIC_ITERATIONS_def)
    from nth_cordic_atan_table [OF sb i this]
    show "rotate_step w (cordic_atan_table f w n) i s' = rotate_step w (atan_table f n) i s'"
      by (rule rotate_step_cong)
  qed
  then show ?thesis by (simp add: cordic_rotate_def CORDIC_ITERATIONS_def)
qed

lemma cordic_vector_table:
  assumes sb: "storage_bits m n = Some w"
    and acc: "\<And>i. i < min n 16 \<Longrightarrow> atan_accurate f i"
  shows "cordic_vector f w n x y =
    (case fold (vector_step w (atan_table f n)) [0..<min n 16] (x, y, 0)
     of (x', y', z) \<Rightarrow> z)"
proof -
  have "fold (vector_step w (cordic_atan_table f w n)) [0..<CORDIC_ITERATIONS n] s
      = fold (vector_step w (atan_table f n)) [0..<CORDIC_ITERATIONS n] s" for s
  proof (rule fold_steps_cong)
    fix i s' assume i: "i < CORDIC_ITERATIONS n"
    then have "atan_accurate f i" using acc by (simp add: CORDIC_ITERATIONS_def)
    from nth_cordic_atan_table [OF sb i this]
    show "vector_step w (cordic_atan_table f w n) i s' = vector_step w (atan_table f n) i s'"
      by (rule vector_step_cong)
  qed
  then show ?thesis by (simp add: cordic_vector_def CORDIC_ITERATIONS_def)
qed

section \<open>Boundary values of Q7.8\<close>

text \<open>
  Claim C3, as amended. For Q7.8 (\<open>m = 7\<close>, \<open>n = 8\<close>, 16-bit storage):
  \<open>ONE = 256\<close>, \<open>PI = 804\<close>, \<open>from_real(1.5) = 384\<close>, \<open>to_real(384) = 1.5\<close>,
  and, with the CORDIC gain \<open>K = 155\<close> and the 8-entry arctangent table
  \<open>201, 118, 62, 31, 15, 7, 3, 1\<close>, \<open>sin(0) = -1\<close> and \<open>cos(0) = 255\<close>: each one
  unit in the last place away from \<open>0\<close> and \<open>256\<close>. The table, and with it the
  last two values, is what the generator writes for every \<open>math.atan\<close> that is
  accurate at the eight arguments \<open>2^-i\<close>.
\<close>

theorem Q7_8_boundary_values:
  assumes "\<And>i. i < 8 \<Longrightarrow> atan_accurate math_atan i"
  shows "storage_bits 7 8 = Some 16
   \<and> Q_ONE 16 8 = 256 \<and> QM_ONE 16 8 = Some 256
   \<and> QM_PI 16 8 = Some 804
   \<and> q_from_double 16 8 1.5 = Some 384
   \<and> q_to_double 8 384 = 1.5
   \<and> CORDIC_K 16 8 = 155
   \<and> CORDIC_ITERATIONS 8 = 8
   \<and> cordic_atan_table math_atan 16 8 = [201, 118, 62, 31, 15, 7, 3, 1]
   \<and> q_sin math_atan fuel 16 8 0 = Some (- 1)
   \<and> q_cos math_atan fuel 16 8 0 = Some 255"
  by (simp add: storage_bits_def total_bits_def Q_ONE_def QM_ONE_def shl_def cast_def
      QM_PI_Q7_8 q_from_double_def cast_double_def c_trunc_def in_range_def q_to_double_def
      CORDIC_K_def k_fixed_8 CORDIC_ITERATIONS_def
      cordic_atan_table_Q7_8 [OF assms] q_sin_Q7_8_zero [OF assms] q_cos_Q7_8_zero [OF assms])

theorem Q7_8_boundary_values_witness:
  "(\<forall>i. atan_accurate arctan i)
   \<and> QM_PI 16 8 = Some 804 \<and> CORDIC_K 16 8 = 155
   \<and> cordic_atan_table arctan 16 8 = [201, 118, 62, 31, 15, 7, 3, 1]
   \<and> q_sin arctan 0 16 8 0 = Some (- 1)
   \<and> q_cos arctan 0 16 8 0 = Some 255"
  using Q7_8_boundary_values [of arctan 0] by (simp add: atan_accurate_arctan)

text \<open>
  Claim C3 as stated fails in its last two values: the rotation runs all 8 steps from
  \<open>z = 0\<close> and ends at \<open>(255, -1)\<close>, so for no accurate \<open>math.atan\<close> is
  \<open>sin(0)\<close> equal to \<open>0\<close> or \<open>cos(0)\<close> equal to \<open>256\<close>.
\<close>

theorem Q7_8_sin_cos_zero_counterexample:
  "\<not> (\<exists>f. (\<forall>i < 8. atan_accurate f i)
          \<and> (q_sin f 0 16 8 0 = Some 0 \<or> q_cos f 0 16 8 0 = Some 256))"
proof
  assume "\<exists>f. (\<forall>i < 8. atan_accurate f i)
          \<and> (q_sin f 0 16 8 0 = Some 0 \<or> q_cos f 0 16 8 0 = Some 256)"
  then obtain f where a: "\<And>i. i < 8 \<Longrightarrow> atan_accurate f i"
    and b: "q_sin f 0 16 8 0 = Some 0 \<or> q_cos f 0 16 8 0 = Some 256" by blast
  from b show False by (simp add: q_sin_Q7_8_zero [OF a] q_cos_Q7_8_zero [OF a])
qed

section \<open>Shape of the arctangent table\<close>

text \<open>
  Claim C4, as amended. For every format, \<open>generate_cordic_tables\<close> produces
  \<open>min(n, 32)\<close> entries, entry \<open>i\<close> being the product \<open>math.atan(2^-i) * 2^n\<close>
  with its fraction dropped. Where \<open>math.atan\<close> is accurate the product is not
  negative, so the entry is the product rounded down, equal to or one less than the
  rounded product; the C array then holds the first
  \<open>CORDIC_ITERATIONS = min(n, 16)\<close> entries unchanged, and the rotation and
  vectoring loops read exactly those.
\<close>

theorem atan_table_truncated_prefix:
  assumes "storage_bits m n = Some w"
    and "\<And>i. i < min n 32 \<Longrightarrow> atan_accurate math_atan i"
  shows "length (atan_table math_atan n) = min n 32
       \<and> (\<forall>i < min n 32.
             atan_table math_atan n ! i = c_trunc (math_atan (1 / 2 ^ i) * 2 ^ n)
             \<and> atan_table math_atan n ! i = \<lfloor>math_atan (1 / 2 ^ i) * 2 ^ n\<rfloor>
             \<and> atan_table math_atan n ! i \<le> round (math_atan (1 / 2 ^ i) * 2 ^ n)
             \<and> round (math_atan (1 / 2 ^ i) * 2 ^ n) \<le> atan_table math_atan n ! i + 1)
       \<and> CORDIC_ITERATIONS n = min n 16
       \<and> length (cordic_atan_table math_atan w n) = min n 16
       \<and> (\<forall>i < min n 16. cordic_atan_table math_atan w n ! i = atan_table math_atan n ! i)
       \<and> cordic_rotate math_atan w n z =
           (case fold (rotate_step w (atan_table math_atan n)) [0..<min n 16]
                   (CORDIC_K w n, 0, z)
            of (x, y, z') \<Rightarrow> (x, y))
       \<and> cordic_vector math_atan w n x y =
           (case fold (vector_step w (atan_table math_atan n)) [0..<min n 16] (x, y, 0)
            of (x', y', z') \<Rightarrow> z')"
proof -
  have acc16: "atan_accurate math_atan i" if "i < min n 16" for i
    using that by (intro assms(2)) simp
  have e: "\<forall>i < min n 32.
             atan_table math_atan n ! i = c_trunc (math_atan (1 / 2 ^ i) * 2 ^ n)
             \<and> atan_table math_atan n ! i = \<lfloor>math_atan (1 / 2 ^ i) * 2 ^ n\<rfloor>
             \<and> atan_table math_atan n ! i \<le> round (math_atan (1 / 2 ^ i) * 2 ^ n)
             \<and> round (math_atan (1 / 2 ^ i) * 2 ^ n) \<le> atan_table math_atan n ! i + 1"
    using floor_le_round assms(2) by (simp add: nth_atan_table nth_atan_table_trunc [symmetric])
  have c: "\<forall>i < min n 16. cordic_atan_table math_atan w n ! i = atan_table math_atan n ! i"
    using nth_cordic_atan_table [OF assms(1)] acc16 by (simp add: CORDIC_ITERATIONS_def)
  have l: "length (cordic_atan_table math_atan w n) = min n 16"
    by (simp add: length_cordic_atan_table CORDIC_ITERATIONS_def)
  show ?thesis
    using e c l cordic_rotate_table [OF assms(1) acc16, of z]
      cordic_vector_table [OF assms(1) acc16, of x y]
    by (simp only: length_atan_table CORDIC_ITERATIONS_def simp_thms)
qed

theorem atan_table_truncated_prefix_witness:
  "storage_bits 7 8 = Some 16 \<and> (\<forall>i. atan_accurate arctan i)
   \<and> (1::nat) < min 8 32 \<and> (1::nat) < min 8 16
   \<and> length (atan_table arctan 8) = 8
   \<and> atan_table arctan 8 ! 1 = \<lfloor>arctan (1 / 2 ^ 1) * 2 ^ 8\<rfloor>
   \<and> length (cordic_atan_table arctan 16 8) = 8
   \<and> cordic_atan_table arctan 16 8 ! 1 = atan_table arctan 8 ! 1"
proof -
  have h: "storage_bits 7 8 = Some 16" by (simp add: storage_bits_def total_bits_def)
  have acc: "atan_accurate arctan i" if "i < min 8 32" for i by (rule atan_accurate_arctan)
  note t = atan_table_truncated_prefix [OF h acc, of 0 0 0]
  from t have a: "\<forall>i < min 8 32.
             atan_table arctan 8 ! i = c_trunc (arctan (1 / 2 ^ i) * 2 ^ 8)
             \<and> atan_table arctan 8 ! i = \<lfloor>arctan (1 / 2 ^ i) * 2 ^ 8\<rfloor>
             \<and> atan_table arctan 8 ! i \<le> round (arctan (1 / 2 ^ i) * 2 ^ 8)
             \<and> round (arctan (1 / 2 ^ i) * 2 ^ 8) \<le> atan_table arctan 8 ! i + 1"
    by (rule conjunct1 [OF conjunct2])
  from t have b: "\<forall>i < min 8 16. cordic_atan_table arctan 16 8 ! i = atan_table arctan 8 ! i"
    by blast
  from t have l: "length (atan_table arctan 8) = min 8 32"
    "length (cordic_atan_table arctan 16 8) = min 8 16"
    by blast+
  have i: "(1::nat) < min 8 32" "(1::nat) < min 8 16" by simp_all
  from a i(1) have a1: "atan_table arctan 8 ! 1 = \<lfloor>arctan (1 / 2 ^ 1) * 2 ^ 8\<rfloor>" by blast
  from b i(2) have b1: "cordic_atan_table arctan 16 8 ! 1 = atan_table arctan 8 ! 1" by blast
  show ?thesis using h i a1 b1 l atan_accurate_arctan by simp
qed

text \<open>
  Claim C4 as stated fails. For \<open>n = 8\<close> and every accurate \<open>math.atan\<close>, entry 1
  of the table is \<open>118\<close>, while \<open>atan(2^-1) * 2^8\<close>, about \<open>118.69\<close>, rounds to
  \<open>119\<close>, whether the rounded product is that of the real arctangent or of
  \<open>math.atan\<close>. And for \<open>n = 20\<close> the generated table has 20 entries, not
  \<open>min(20, 16) = 16\<close>, whatever \<open>math.atan\<close> is.
\<close>

theorem atan_table_not_rounded_counterexample:
  "round (arctan (1 / 2 ^ 1) * 2 ^ 8) = (119::int)
   \<and> \<not> (\<exists>f. (\<forall>i < 8. atan_accurate f i)
            \<and> (atan_table f 8 ! 1 = round (arctan (1 / 2 ^ 1) * 2 ^ 8)
               \<or> atan_table f 8 ! 1 = round (f (1 / 2 ^ 1) * 2 ^ 8)))
   \<and> \<not> (\<exists>f. length (atan_table f 20) = min 20 16)"
proof -
  have r: "round (arctan (1 / 2 ^ 1) * 2 ^ 8) = (119::int)"
    using arctan_2 by (simp add: round_def floor_eq_iff)
  have "atan_table f 8 ! 1 \<noteq> round (arctan (1 / 2 ^ 1) * 2 ^ 8)
        \<and> atan_table f 8 ! 1 \<noteq> round (f (1 / 2 ^ 1) * 2 ^ 8)"
    if a: "\<And>i. i < 8 \<Longrightarrow> atan_accurate f i" for f
  proof -
    have "atan_accurate f 1" by (rule a) simp
    from atan_accurate_bounds [OF this, of "0.4634" "0.4646"] arctan_2
    have "round (f (1 / 2 ^ 1) * 2 ^ 8) = (119::int)"
      by (simp add: round_def floor_eq_iff)
    with r show ?thesis by (simp add: atan_table_8 [OF a])
  qed
  then have "\<not> (\<exists>f. (\<forall>i < 8. atan_accurate f i)
            \<and> (atan_table f 8 ! 1 = round (arctan (1 / 2 ^ 1) * 2 ^ 8)
               \<or> atan_table f 8 ! 1 = round (f (1 / 2 ^ 1) * 2 ^ 8)))"
    by blast
  with r show ?thesis by (simp add: length_atan_table)
qed

section \<open>Range reduction in sine and cosine\<close>

lemma reduce_above_returns:
  assumes w: "0 < w" and p: "0 < p" "in_range w p"
  shows "in_range w a \<Longrightarrow> a \<le> p + 2 * p * int k \<Longrightarrow>
         \<exists>r. reduce_above k w p a = Some r \<and> r \<le> a \<and> (- p < r \<or> r = a) \<and> in_range w r"
proof (induction k arbitrary: a)
  case 0
  then show ?case by simp
next
  case (Suc k)
  show ?case
  proof (cases "a > p")
    case False
    then show ?thesis using Suc.prems by simp
  next
    case True
    define a' where "a' = a - 2 * p"
    have lo: "- p < a'" and hi: "a' \<le> a" using True p(1) unfolding a'_def by linarith+
    have r: "in_range w a'"
      using lo hi Suc.prems(1) p(2) unfolding in_range_def by linarith
    have c: "cast w (a - 2 * p) = a'" unfolding a'_def [symmetric] by (rule cast_id [OF w r])
    have "2 * p * int (Suc k) = 2 * p * int k + 2 * p" by (simp add: algebra_simps)
    with Suc.prems(2) have b: "a' \<le> p + 2 * p * int k" unfolding a'_def by linarith
    from Suc.IH [OF r b] obtain r' where
      r': "reduce_above k w p a' = Some r'" "r' \<le> a'" "- p < r' \<or> r' = a'" "in_range w r'"
      by blast
    have "reduce_above (Suc k) w p a = Some r'" using True c r'(1) by simp
    moreover have "r' \<le> a" using r'(2) hi by linarith
    moreover have "- p < r'" using r'(3) lo by auto
    ultimately show ?thesis using r'(4) by blast
  qed
qed

lemma sarith_neg_pi:
  assumes w: "0 < w" and p: "0 < p" "in_range w p"
  shows "sarith w (- p) = - p"
proof -
  have "in_range w (- p)" using p unfolding in_range_def by linarith
  have "w \<le> promo w" by (simp add: promo_def)
  from in_range_mono [OF w this \<open>in_range w (- p)\<close>] have "in_range (promo w) (- p)" .
  then show ?thesis unfolding sarith_def by (intro cast_id) (simp_all add: promo_def)
qed

lemma reduce_below_returns:
  assumes w: "0 < w" and p: "0 < p" "in_range w p"
  shows "in_range w a \<Longrightarrow> - p - 2 * p * int k \<le> a \<Longrightarrow>
         \<exists>r. reduce_below k w p a = Some r \<and> in_range w r"
proof (induction k arbitrary: a)
  case 0
  then show ?case by (simp add: sarith_neg_pi [OF w p])
next
  case (Suc k)
  show ?case
  proof (cases "a < - p")
    case False
    then show ?thesis using Suc.prems by (simp add: sarith_neg_pi [OF w p])
  next
    case True
    define a' where "a' = a + 2 * p"
    have lo: "a \<le> a'" and hi: "a' < p" using True p(1) unfolding a'_def by linarith+
    have r: "in_range w a'"
      using lo hi Suc.prems(1) p(2) unfolding in_range_def by linarith
    have c: "cast w (a + 2 * p) = a'" unfolding a'_def [symmetric] by (rule cast_id [OF w r])
    have "2 * p * int (Suc k) = 2 * p * int k + 2 * p" by (simp add: algebra_simps)
    with Suc.prems(2) have b: "- p - 2 * p * int k \<le> a'" unfolding a'_def by linarith
    from Suc.IH [OF r b] obtain r' where
      r': "reduce_below k w p a' = Some r'" "in_range w r'"
      by blast
    have "reduce_below (Suc k) w p a = Some r'"
      using True c r'(1) by (simp add: sarith_neg_pi [OF w p])
    then show ?thesis using r'(2) by blast
  qed
qed

lemma fuel_covers:
  assumes p: "0 < p" and f: "nat (\<bar>a\<bar> div (2 * p)) + 1 \<le> k"
  shows "a \<le> p + 2 * p * int k" "- p - 2 * p * int k \<le> a"
proof -
  define q where "q = \<bar>a\<bar> div (2 * p)"
  have q0: "0 \<le> q" unfolding q_def using p by (simp add: pos_imp_zdiv_nonneg_iff)
  have "\<bar>a\<bar> = 2 * p * q + \<bar>a\<bar> mod (2 * p)" unfolding q_def by simp
  moreover have "\<bar>a\<bar> mod (2 * p) < 2 * p" using p by simp
  ultimately have ub: "\<bar>a\<bar> < 2 * p * q + 2 * p" by linarith
  have "q + 1 \<le> int k" using f q0 unfolding q_def by linarith
  then have "2 * p * (q + 1) \<le> 2 * p * int k" using p by (intro mult_left_mono) simp_all
  then have "2 * p * q + 2 * p \<le> 2 * p * int k" by (simp add: algebra_simps)
  with ub have m: "\<bar>a\<bar> < 2 * p * int k" by linarith
  show "a \<le> p + 2 * p * int k" using m p by linarith
  show "- p - 2 * p * int k \<le> a" using m p by linarith
qed

lemma QM_PI_positive:
  assumes sb: "storage_bits m n = Some w" and pi: "QM_PI w n = Some p"
  shows "0 < p \<and> in_range w p"
proof -
  from storage_bits_cases [OF sb] have w: "0 < w" "w \<le> 64" and n: "n < w" by auto
  have n64: "int n < 64" using n w by simp
  from pi n64 have cd: "cast_double w (pi_literal * real_of_int (cast 64 (2 ^ n))) = Some p"
    by (simp add: QM_PI_def shl_def)
  then have r: "in_range w p" and pe: "p = c_trunc (pi_literal * real_of_int (cast 64 (2 ^ n)))"
    by (auto simp: cast_double_def split: if_splits)
  show ?thesis
  proof (cases "n \<le> 62")
    case True
    then have "(2::int) ^ n < 2 ^ (64 - 1)" by (intro power_strict_increasing) auto
    then have "in_range 64 (2 ^ n)" by (intro in_range_nonneg) simp_all
    then have s: "cast 64 (2 ^ n) = 2 ^ n" by (intro cast_id) simp_all
    have "(3::real) * 1 \<le> pi_literal * 2 ^ n"
      using pi_literal_bounds(1) by (intro mult_mono) simp_all
    then have "3 \<le> \<lfloor>pi_literal * 2 ^ n\<rfloor>" by (simp add: le_floor_iff)
    then have "0 < p" unfolding pe s by (simp add: c_trunc_def)
    with r show ?thesis by simp
  next
    case False
    with n w have n63: "n = 63" and w64: "w = 64" by auto
    have "p = - 28976077832308490240"
      unfolding pe n63 by (simp add: cast_def c_trunc_def pi_literal_def)
    with r w64 show ?thesis by (simp add: in_range_def)
  qed
qed

lemma QM_PI_defined:
  assumes sb: "storage_bits m n = Some w" and m: "2 \<le> m"
  shows "\<exists>p. QM_PI w n = Some p"
proof -
  from storage_bits_cases [OF sb] m have w: "0 < w" "w \<le> 64" and n: "n + 2 \<le> w - 1" by auto
  have n64: "int n < 64" using n w by simp
  have "n \<le> 62" using n w by simp
  then have "(2::int) ^ n < 2 ^ (64 - 1)" by (intro power_strict_increasing) auto
  then have "in_range 64 (2 ^ n)" by (intro in_range_nonneg) simp_all
  then have s: "cast 64 (2 ^ n) = 2 ^ n" by (intro cast_id) simp_all
  define r :: real where "r = pi_literal * 2 ^ n"
  have r0: "0 \<le> r" unfolding r_def using pi_literal_bounds(1) by simp
  have "r < 4 * 2 ^ n" unfolding r_def using pi_literal_bounds(2) by simp
  also have "\<dots> = real_of_int (2 ^ (n + 2))" by simp
  finally have "\<lfloor>r\<rfloor> < 2 ^ (n + 2)" by (simp only: floor_less_iff)
  moreover have "(2::int) ^ (n + 2) \<le> 2 ^ (w - 1)" using n by (intro power_increasing) auto
  ultimately have "\<lfloor>r\<rfloor> < 2 ^ (w - 1)" by linarith
  moreover have "0 \<le> \<lfloor>r\<rfloor>" using r0 by simp
  ultimately have "in_range w \<lfloor>r\<rfloor>" by (intro in_range_nonneg)
  then have "in_range w (c_trunc r)" using r0 by (simp add: c_trunc_def)
  then show ?thesis using n64 s unfolding r_def by (simp add: QM_PI_def shl_def cast_double_def)
qed

lemma sin_cos_return:
  assumes sb: "storage_bits m n = Some w" and pi: "QM_PI w n = Some p"
    and a: "in_range w angle" and f: "nat (\<bar>angle\<bar> div (2 * p)) + 1 \<le> fuel"
  shows "(\<exists>y. q_sin math_atan fuel w n angle = Some y) \<and> (\<exists>y. q_cos math_atan fuel w n angle = Some y)"
proof -
  from storage_bits_cases [OF sb] have w: "0 < w" by auto
  from QM_PI_positive [OF sb pi] have p: "0 < p" "in_range w p" by simp_all
  from reduce_above_returns [OF w p a fuel_covers(1) [OF p(1) f]] obtain a1 where
    a1: "reduce_above fuel w p angle = Some a1" "a1 \<le> angle" "- p < a1 \<or> a1 = angle" "in_range w a1"
    by blast
  have "- p - 2 * p * int fuel \<le> a1"
  proof (cases "a1 = angle")
    case True
    then show ?thesis using fuel_covers(2) [OF p(1) f] by simp
  next
    case False
    then have "- p < a1" using a1(3) by simp
    moreover have "0 \<le> 2 * p * int fuel" using p(1) by simp
    ultimately show ?thesis by linarith
  qed
  from reduce_below_returns [OF w p a1(4) this] obtain a2 where
    a2: "reduce_below fuel w p a1 = Some a2" by blast
  show ?thesis
    using pi a1(1) a2 by (simp add: q_sin_def q_cos_def Let_def split: prod.splits)
qed

lemma QM_PI_Q0_7: "QM_PI 8 7 = None"
  by (simp add: QM_PI_def pi_literal_def shl_def cast_def cast_double_def c_trunc_def
      in_range_def)

lemma QM_PI_Q0_15: "QM_PI 16 15 = None"
  by (simp add: QM_PI_def pi_literal_def shl_def cast_def cast_double_def c_trunc_def
      in_range_def)

text \<open>
  Claim C7, as amended. For every format whose \<open>PI\<close> constant is a value of the
  storage type (every format with \<open>m \<ge> 2\<close> is one) and every input angle, \<open>sin\<close>
  and \<open>cos\<close> return: each range-reduction loop runs its body at most
  \<open>|angle| div (2 * PI) + 1\<close> times, and the rotation loop that follows runs
  \<open>min(n, 16)\<close> times.
\<close>

theorem sin_cos_terminate:
  assumes "storage_bits m n = Some w" and "in_range w angle"
  shows "(2 \<le> m \<longrightarrow> QM_PI w n \<noteq> None)
       \<and> (\<forall>p fuel. QM_PI w n = Some p \<and> nat (\<bar>angle\<bar> div (2 * p)) + 1 \<le> fuel \<longrightarrow>
             0 < p \<and> (\<exists>y. q_sin math_atan fuel w n angle = Some y)
                   \<and> (\<exists>y. q_cos math_atan fuel w n angle = Some y))
       \<and> length [0..<CORDIC_ITERATIONS n] = min n 16"
proof -
  have a: "2 \<le> m \<longrightarrow> QM_PI w n \<noteq> None"
    using QM_PI_defined [OF assms(1)] by auto
  have b: "0 < p \<and> (\<exists>y. q_sin math_atan fuel w n angle = Some y) \<and> (\<exists>y. q_cos math_atan fuel w n angle = Some y)"
    if "QM_PI w n = Some p" "nat (\<bar>angle\<bar> div (2 * p)) + 1 \<le> fuel" for p fuel
    using QM_PI_positive [OF assms(1) that(1)] sin_cos_return [OF assms(1) that(1) assms(2) that(2)]
    by simp
  have c: "length [0..<CORDIC_ITERATIONS n] = min n 16" by (simp add: CORDIC_ITERATIONS_def)
  from a b c show ?thesis by blast
qed

theorem sin_cos_terminate_witness:
  "storage_bits 7 8 = Some 16 \<and> in_range 16 3000 \<and> (2::nat) \<le> 7
   \<and> QM_PI 16 8 = Some 804 \<and> nat (\<bar>3000\<bar> div (2 * 804)) + 1 \<le> 2
   \<and> (\<forall>f. (\<exists>y. q_sin f 2 16 8 3000 = Some y) \<and> (\<exists>y. q_cos f 2 16 8 3000 = Some y))"
proof -
  have h: "storage_bits 7 8 = Some 16" by (simp add: storage_bits_def total_bits_def)
  have r: "in_range 16 3000" by (simp add: in_range_def)
  have f: "nat (\<bar>3000\<bar> div (2 * 804)) + 1 \<le> 2" by simp
  have "(\<exists>y. q_sin f 2 16 8 3000 = Some y) \<and> (\<exists>y. q_cos f 2 16 8 3000 = Some y)" for f
  proof -
    note t = sin_cos_terminate [OF h r, of f]
    from t have "\<forall>p fuel. QM_PI 16 8 = Some p \<and> nat (\<bar>3000\<bar> div (2 * p)) + 1 \<le> fuel \<longrightarrow>
             0 < p \<and> (\<exists>y. q_sin f fuel 16 8 3000 = Some y) \<and> (\<exists>y. q_cos f fuel 16 8 3000 = Some y)"
      by (rule conjunct1 [OF conjunct2])
    with QM_PI_Q7_8 f show ?thesis by blast
  qed
  with h r f QM_PI_Q7_8 show ?thesis by simp
qed

text \<open>
  Claim C7 as stated fails for Q0.7, which the script generates: \<open>PI\<close> is not a
  value of \<open>int8_t\<close>, the loop conditions compare the angle with a constant that has
  no defined value, and no number of iterations makes \<open>sin(0)\<close> or \<open>cos(0)\<close>
  return a value.
\<close>

theorem sin_cos_Q0_7_counterexample:
  "storage_bits 0 7 = Some 8 \<and> in_range 8 0
   \<and> \<not> (\<exists>f fuel y. q_sin f fuel 8 7 0 = Some y)
   \<and> \<not> (\<exists>f fuel y. q_cos f fuel 8 7 0 = Some y)"
  by (simp add: storage_bits_def total_bits_def in_range_def q_sin_def q_cos_def QM_PI_Q0_7)

section \<open>\<open>PI\<close> in the formats without integer bits\<close>

text \<open>
  Claim C10, as amended. The generated formats with \<open>m \<le> 1\<close> are Q0.7 and Q0.15.
  For both, \<open>trunc(pi * 2^n)\<close> (402 and 102943) exceeds \<open>MAX\<close> (127 and 32767), so
  \<open>PI\<close> is not representable and the cast in the \<open>PI\<close> macro converts a
  \<open>double\<close> whose integral part is out of the range of the storage type: the
  conversion has no defined value (the reinterpretation modulo \<open>2^w\<close> would be the
  negative \<open>-110\<close> and \<open>-28129\<close>). What reads \<open>PI\<close> has no defined result
  either: \<open>sin\<close> and \<open>cos\<close> for every angle, \<open>atan2\<close> for every \<open>x < 0\<close>.
\<close>

theorem PI_not_representable:
  "filter (\<lambda>(m, n). m \<le> 1) formats = [(0, 7), (0, 15)]
   \<and> storage_bits 0 7 = Some 8
   \<and> c_trunc (3.14159265358979323846 * 2 ^ 7) = 402 \<and> c_trunc (pi_literal * 2 ^ 7) = 402
   \<and> Q_MAX 8 < 402
   \<and> to_signed 8 (402 mod 2 ^ 8) = - 110
   \<and> QM_PI 8 7 = None
   \<and> storage_bits 0 15 = Some 16
   \<and> c_trunc (3.14159265358979323846 * 2 ^ 15) = 102943
   \<and> c_trunc (pi_literal * 2 ^ 15) = 102943 \<and> Q_MAX 16 < 102943
   \<and> to_signed 16 (102943 mod 2 ^ 16) = - 28129
   \<and> QM_PI 16 15 = None
   \<and> q_sin math_atan fuel 8 7 angle = None \<and> q_cos math_atan fuel 8 7 angle = None
   \<and> q_sin math_atan fuel 16 15 angle = None \<and> q_cos math_atan fuel 16 15 angle = None
   \<and> (x < 0 \<longrightarrow> q_atan2 math_atan 8 7 y x = None \<and> q_atan2 math_atan 16 15 y x = None)"
  by (simp add: formats_def storage_bits_def total_bits_def c_trunc_def pi_literal_def Q_MAX_def
      to_signed_def QM_PI_Q0_7 QM_PI_Q0_15 q_sin_def q_cos_def q_atan2_def)

theorem PI_not_representable_witness:
  "(- 1 :: int) < 0
   \<and> (\<forall>f. q_atan2 f 8 7 0 (- 1) = None \<and> q_atan2 f 16 15 0 (- 1) = None)
   \<and> QM_PI 8 7 = None \<and> QM_PI 16 15 = None"
proof -
  have "q_atan2 f 8 7 0 (- 1) = None \<and> q_atan2 f 16 15 0 (- 1) = None
        \<and> QM_PI 8 7 = None \<and> QM_PI 16 15 = None" for f
    using PI_not_representable [of f 0 0 "- 1" 0] by simp
  then show ?thesis by simp
qed

text \<open>
  Claim C10 as stated fails: the \<open>PI\<close> macro does not yield the reinterpretation
  modulo \<open>2^w\<close> of 402 or 102943.
\<close>

theorem PI_wrapped_counterexample:
  "QM_PI 8 7 \<noteq> Some (to_signed 8 (402 mod 2 ^ 8))
   \<and> QM_PI 16 15 \<noteq> Some (to_signed 16 (102943 mod 2 ^ 16))"
  by (simp add: QM_PI_Q0_7 QM_PI_Q0_15)

section \<open>Rounding functions\<close>

subsection \<open>Masking the fractional bits\<close>

lemma and_not_low_bits: "(x::int) AND NOT (2 ^ n - 1) = (x div 2 ^ n) * 2 ^ n"
proof -
  have "x AND NOT (mask n) = push_bit n (drop_bit n x)"
    by (rule bit_eqI) (auto simp: bit_simps)
  then show ?thesis by (simp add: mask_int_def push_bit_int_def drop_bit_int_def)
qed

lemma and_low_bits: "(x::int) AND (2 ^ n - 1) = x mod 2 ^ n"
proof -
  have "x AND mask n = take_bit n x" by (simp add: take_bit_eq_mask)
  then show ?thesis by (simp add: mask_int_def take_bit_int_def)
qed

lemma cast_and_not_cong:
  assumes "a mod 2 ^ w = b mod 2 ^ w"
  shows "cast w (x AND NOT a) = cast w (x AND NOT b)"
proof (rule cast_cong)
  from assms have t: "take_bit w a = take_bit w b" by (simp add: take_bit_int_def)
  have "take_bit w (x AND NOT a) = take_bit w (x AND NOT b)"
    by (metis t take_bit_and take_bit_not_take_bit)
  then show "(x AND NOT a) mod 2 ^ w = (x AND NOT b) mod 2 ^ w" by (simp add: take_bit_int_def)
qed

text \<open>Facts about a valid format: \<open>P = 2^n\<close> divides \<open>2^(w-1)\<close>.\<close>

lemma format_facts:
  assumes "storage_bits m n = Some w"
  shows "0 < w" "n < w" "n \<le> w - 1" "w \<le> 64" "int n < 64"
  using storage_bits_cases [OF assms] by auto

lemma QM_ONE_value:
  assumes sb: "storage_bits m n = Some w"
  shows "QM_ONE w n = Some (cast w (2 ^ n))"
proof -
  have "cast w (cast 64 (2 ^ n)) = cast w (2 ^ n)"
    using format_facts [OF sb] by (intro cast_cast_ge) simp_all
  then show ?thesis using format_facts(5) [OF sb] by (simp add: QM_ONE_def shl_def)
qed

lemma QM_HALF_value:
  assumes sb: "storage_bits m n = Some w" and n: "1 \<le> n"
  shows "QM_HALF w n = Some (2 ^ (n - 1))"
proof -
  note f = format_facts [OF sb]
  have c: "cast w (cast 64 (2 ^ (n - 1))) = cast w (2 ^ (n - 1))"
    using f by (intro cast_cast_ge) simp_all
  have "(2::int) ^ (n - 1) < 2 ^ (w - 1)" using f n by (intro power_strict_increasing) auto
  then have "in_range w (2 ^ (n - 1))" by (intro in_range_nonneg) simp_all
  then have "cast w (2 ^ (n - 1)) = 2 ^ (n - 1)" by (rule cast_id [OF f(1)])
  moreover have "nat (int n - 1) = n - 1" by simp
  ultimately show ?thesis using f(5) n c by (simp add: QM_HALF_def shl_def)
qed

lemma grid_in_range:
  assumes w: "0 < w" and n: "n \<le> w - 1" and x: "in_range w x"
  shows "in_range w ((x div 2 ^ n) * 2 ^ n)"
proof -
  define P where "P = (2::int) ^ n"
  define H where "H = (2::int) ^ (w - 1)"
  have P0: "0 < P" unfolding P_def by simp
  have "w - 1 = (w - 1 - n) + n" using n by simp
  then have "H = 2 ^ (w - 1 - n) * P" unfolding H_def P_def by (metis power_add)
  then have d: "(- H) mod P = 0" by simp
  have xr: "- H \<le> x" "x < H" using x unfolding in_range_def H_def by simp_all
  have "x = (x div P) * P + x mod P" by simp
  moreover have "0 \<le> x mod P" using P0 by simp
  ultimately have up: "(x div P) * P \<le> x" by linarith
  have "(- H) div P \<le> x div P" using xr(1) P0 by (intro zdiv_mono1) simp_all
  then have "((- H) div P) * P \<le> (x div P) * P" using P0 by (intro mult_right_mono) simp_all
  moreover have "((- H) div P) * P = - H" using d by (metis add.right_neutral div_mult_mod_eq)
  ultimately have lo: "- H \<le> (x div P) * P" by simp
  from lo up xr(2) show ?thesis unfolding in_range_def H_def P_def by linarith
qed

lemma dvd_cast_iff:
  assumes w: "0 < w" and n: "n \<le> w - 1"
  shows "(2::int) ^ n dvd cast w v \<longleftrightarrow> 2 ^ n dvd v"
proof -
  have dH: "(2::int) ^ n dvd 2 ^ (w - 1)" using n by (simp add: le_imp_power_dvd)
  have dW: "(2::int) ^ n dvd 2 ^ w" using n by (simp add: le_imp_power_dvd)
  have "(2::int) ^ n dvd cast w v \<longleftrightarrow> 2 ^ n dvd (v + 2 ^ (w - 1)) mod 2 ^ w"
    unfolding cast_def using dH by (simp add: dvd_diff_left_iff)
  also have "\<dots> \<longleftrightarrow> 2 ^ n dvd v + 2 ^ (w - 1)" using dW by (simp add: dvd_mod_iff)
  also have "\<dots> \<longleftrightarrow> 2 ^ n dvd v" using dH by (simp add: dvd_add_left_iff)
  finally show ?thesis .
qed

lemma frac_mask_value:
  assumes sb: "storage_bits m n = Some w"
  shows "cast w (cast w (2 ^ n) - 1) = 2 ^ n - 1"
proof -
  note f = format_facts [OF sb]
  have "(cast w (2 ^ n) - 1) mod 2 ^ w = (2 ^ n - 1) mod 2 ^ w"
    by (metis cast_mod_self [OF f(1)] mod_diff_left_eq)
  then have "cast w (cast w (2 ^ n) - 1) = cast w (2 ^ n - 1)" by (rule cast_cong)
  moreover have "(2::int) ^ n \<le> 2 ^ (w - 1)" using f by (intro power_increasing) auto
  then have "(2::int) ^ n - 1 < 2 ^ (w - 1)" by linarith
  then have "in_range w (2 ^ n - 1)" by (intro in_range_nonneg) simp_all
  ultimately show ?thesis using cast_id [OF f(1)] by simp
qed

lemma mask_via_ONE:
  assumes sb: "storage_bits m n = Some w"
  shows "cast w (v AND NOT (cast w (2 ^ n) - 1)) = cast w ((v div 2 ^ n) * 2 ^ n)"
proof -
  note f = format_facts [OF sb]
  have "(cast w (2 ^ n) - 1) mod 2 ^ w = (2 ^ n - 1) mod 2 ^ w"
    by (metis cast_mod_self [OF f(1)] mod_diff_left_eq)
  from cast_and_not_cong [OF this] show ?thesis by (simp add: and_not_low_bits)
qed

lemma q_trunc_value:
  assumes sb: "storage_bits m n = Some w" and x: "in_range w x"
  shows "q_trunc w n x = Some ((x div 2 ^ n) * 2 ^ n)"
proof -
  note f = format_facts [OF sb]
  have "cast w ((x div 2 ^ n) * 2 ^ n) = (x div 2 ^ n) * 2 ^ n"
    by (rule cast_id [OF f(1) grid_in_range [OF f(1) f(3) x]])
  then show ?thesis by (simp add: q_trunc_def QM_ONE_value [OF sb] mask_via_ONE [OF sb])
qed

lemma q_floor_value:
  assumes sb: "storage_bits m n = Some w" and x: "in_range w x"
  shows "q_floor w n x =
    Some (if 0 \<le> x then (x div 2 ^ n) * 2 ^ n
          else if x mod 2 ^ n \<noteq> 0 then cast w ((x div 2 ^ n) * 2 ^ n - 2 ^ n) else x)"
proof -
  note f = format_facts [OF sb]
  have g: "cast w ((x div 2 ^ n) * 2 ^ n) = (x div 2 ^ n) * 2 ^ n"
    by (rule cast_id [OF f(1) grid_in_range [OF f(1) f(3) x]])
  have "((x div 2 ^ n) * 2 ^ n - cast w (2 ^ n)) mod 2 ^ w = ((x div 2 ^ n) * 2 ^ n - 2 ^ n) mod 2 ^ w"
    by (metis cast_mod_self [OF f(1)] mod_diff_right_eq)
  then have s: "cast w ((x div 2 ^ n) * 2 ^ n - cast w (2 ^ n)) = cast w ((x div 2 ^ n) * 2 ^ n - 2 ^ n)"
    by (rule cast_cong)
  show ?thesis
    by (simp add: q_floor_def QM_ONE_value [OF sb] frac_mask_value [OF sb] Let_def
        and_not_low_bits and_low_bits g s)
qed

lemma q_ceil_value:
  assumes sb: "storage_bits m n = Some w" and x: "in_range w x"
  shows "q_ceil w n x =
    Some (if 0 \<le> x then (if x mod 2 ^ n \<noteq> 0 then cast w ((x div 2 ^ n) * 2 ^ n + 2 ^ n) else x)
          else (x div 2 ^ n) * 2 ^ n)"
proof -
  note f = format_facts [OF sb]
  have g: "cast w ((x div 2 ^ n) * 2 ^ n) = (x div 2 ^ n) * 2 ^ n"
    by (rule cast_id [OF f(1) grid_in_range [OF f(1) f(3) x]])
  have "((x div 2 ^ n) * 2 ^ n + cast w (2 ^ n)) mod 2 ^ w = ((x div 2 ^ n) * 2 ^ n + 2 ^ n) mod 2 ^ w"
    by (metis cast_mod_self [OF f(1)] mod_add_right_eq)
  then have s: "cast w ((x div 2 ^ n) * 2 ^ n + cast w (2 ^ n)) = cast w ((x div 2 ^ n) * 2 ^ n + 2 ^ n)"
    by (rule cast_cong)
  show ?thesis
    by (simp add: q_ceil_def QM_ONE_value [OF sb] frac_mask_value [OF sb] Let_def
        and_not_low_bits and_low_bits g s)
qed

lemma q_round_value:
  assumes sb: "storage_bits m n = Some w" and n: "1 \<le> n"
  shows "q_round w n x =
    Some (if 0 \<le> x then cast w (((x + 2 ^ (n - 1)) div 2 ^ n) * 2 ^ n)
          else cast w (((x - 2 ^ (n - 1)) div 2 ^ n) * 2 ^ n))"
  by (simp add: q_round_def QM_ONE_value [OF sb] QM_HALF_value [OF sb n] mask_via_ONE [OF sb])

subsection \<open>Multiples of \<open>ONE\<close> are fixed; rounding of non-negative and negative values\<close>

lemma q_trunc_grid:
  assumes sb: "storage_bits m n = Some w" and r: "in_range w r" "2 ^ n dvd r"
  shows "q_trunc w n r = Some r"
  using r(2) by (simp add: q_trunc_value [OF sb r(1)])

lemma q_floor_grid:
  assumes sb: "storage_bits m n = Some w" and r: "in_range w r" "2 ^ n dvd r"
  shows "q_floor w n r = Some r"
  using r(2) by (simp add: q_floor_value [OF sb r(1)] mod_eq_0_iff_dvd)

lemma q_ceil_grid:
  assumes sb: "storage_bits m n = Some w" and r: "in_range w r" "2 ^ n dvd r"
  shows "q_ceil w n r = Some r"
  using r(2) by (simp add: q_ceil_value [OF sb r(1)] mod_eq_0_iff_dvd)

lemma cast_grid:
  assumes sb: "storage_bits m n = Some w" and d: "2 ^ n dvd v"
  shows "in_range w (cast w v) \<and> 2 ^ n dvd cast w v"
  using format_facts [OF sb] d by (simp add: cast_in_range dvd_cast_iff)

lemma q_trunc_idempotent:
  assumes sb: "storage_bits m n = Some w" and x: "in_range w x"
  shows "\<exists>r. q_trunc w n x = Some r \<and> q_trunc w n r = Some r"
proof -
  note f = format_facts [OF sb]
  have "q_trunc w n ((x div 2 ^ n) * 2 ^ n) = Some ((x div 2 ^ n) * 2 ^ n)"
    by (rule q_trunc_grid [OF sb grid_in_range [OF f(1) f(3) x]]) simp
  then show ?thesis by (simp add: q_trunc_value [OF sb x])
qed

lemma q_floor_idempotent:
  assumes sb: "storage_bits m n = Some w" and x: "in_range w x"
  shows "\<exists>r. q_floor w n x = Some r \<and> q_floor w n r = Some r"
proof -
  note f = format_facts [OF sb]
  define r where "r = (if 0 \<le> x then (x div 2 ^ n) * 2 ^ n
          else if x mod 2 ^ n \<noteq> 0 then cast w ((x div 2 ^ n) * 2 ^ n - 2 ^ n) else x)"
  have v: "q_floor w n x = Some r" unfolding r_def by (rule q_floor_value [OF sb x])
  have "in_range w r \<and> 2 ^ n dvd r"
    unfolding r_def using grid_in_range [OF f(1) f(3) x] x cast_grid [OF sb, of "(x div 2 ^ n) * 2 ^ n - 2 ^ n"]
    by (auto simp: mod_eq_0_iff_dvd)
  then have "q_floor w n r = Some r" using q_floor_grid [OF sb] by blast
  with v show ?thesis by blast
qed

lemma q_ceil_idempotent:
  assumes sb: "storage_bits m n = Some w" and x: "in_range w x"
  shows "\<exists>r. q_ceil w n x = Some r \<and> q_ceil w n r = Some r"
proof -
  note f = format_facts [OF sb]
  define r where "r = (if 0 \<le> x then (if x mod 2 ^ n \<noteq> 0 then cast w ((x div 2 ^ n) * 2 ^ n + 2 ^ n) else x)
          else (x div 2 ^ n) * 2 ^ n)"
  have v: "q_ceil w n x = Some r" unfolding r_def by (rule q_ceil_value [OF sb x])
  have "in_range w r \<and> 2 ^ n dvd r"
    unfolding r_def using grid_in_range [OF f(1) f(3) x] x cast_grid [OF sb, of "(x div 2 ^ n) * 2 ^ n + 2 ^ n"]
    by (auto simp: mod_eq_0_iff_dvd)
  then have "q_ceil w n r = Some r" using q_ceil_grid [OF sb] by blast
  with v show ?thesis by blast
qed

lemma half_facts:
  assumes "1 \<le> n"
  shows "(0::int) < 2 ^ (n - 1)" "(2::int) ^ (n - 1) < 2 ^ n" "(2::int) ^ n = 2 * 2 ^ (n - 1)"
proof -
  show "(0::int) < 2 ^ (n - 1)" by simp
  show "(2::int) ^ n = 2 * 2 ^ (n - 1)" using assms by (intro two_power_split) simp
  then show "(2::int) ^ (n - 1) < 2 ^ n" by simp
qed

lemma grid_plus_half_div:
  assumes n: "1 \<le> n" and d: "(2::int) ^ n dvd r"
  shows "(r + 2 ^ (n - 1)) div 2 ^ n = r div 2 ^ n" "(r - 2 ^ (n - 1)) div 2 ^ n = r div 2 ^ n - 1"
proof -
  define P where "P = (2::int) ^ n"
  define h where "h = (2::int) ^ (n - 1)"
  have h: "0 < h" "h < P" using half_facts [OF n] unfolding P_def h_def by simp_all
  from d obtain k where k: "r = k * P" unfolding P_def by (metis dvd_def mult.commute)
  have P0: "P \<noteq> 0" using h by simp
  have "(h + k * P) div P = k + h div P" by (rule div_mult_self1 [OF P0])
  then have "(k * P + h) div P = k" using h by (simp add: div_pos_pos_trivial add.commute)
  moreover have "((P - h) + (k - 1) * P) div P = (k - 1) + (P - h) div P"
    by (rule div_mult_self1 [OF P0])
  moreover have "(P - h) + (k - 1) * P = k * P - h" by (simp add: algebra_simps)
  moreover have "(P - h) div P = 0" using h by (simp add: div_pos_pos_trivial)
  ultimately have "(k * P + h) div P = k" "(k * P - h) div P = k - 1" by simp_all
  moreover have "k * P div P = k" using P0 by simp
  ultimately show "(r + 2 ^ (n - 1)) div 2 ^ n = r div 2 ^ n" "(r - 2 ^ (n - 1)) div 2 ^ n = r div 2 ^ n - 1"
    unfolding k P_def [symmetric] h_def [symmetric] by simp_all
qed

lemma q_round_nonneg:
  assumes sb: "storage_bits m n = Some w" and n: "1 \<le> n"
    and x: "0 \<le> x" "in_range w (x + 2 ^ (n - 1))"
  shows "q_round w n x = Some (round_half_away n x)"
    and "q_round w n (round_half_away n x) = Some (round_half_away n x)"
proof -
  note f = format_facts [OF sb]
  define r where "r = ((x + 2 ^ (n - 1)) div 2 ^ n) * 2 ^ n"
  have rr: "in_range w r" unfolding r_def by (rule grid_in_range [OF f(1) f(3) x(2)])
  have r0: "0 \<le> r" unfolding r_def using x(1) by (simp add: pos_imp_zdiv_nonneg_iff)
  have d: "2 ^ n dvd r" unfolding r_def by simp
  have e: "round_half_away n x = r"
  proof (cases "x = 0")
    case True
    then show ?thesis unfolding r_def round_half_away_def using half_facts [OF n]
      by (simp add: div_pos_pos_trivial)
  next
    case False
    then have "sgn x = 1" "\<bar>x\<bar> = x" using x(1) by simp_all
    then show ?thesis unfolding r_def round_half_away_def by simp
  qed
  have "q_round w n x = Some (cast w r)" using x(1) unfolding r_def by (simp add: q_round_value [OF sb n])
  then show "q_round w n x = Some (round_half_away n x)" using cast_id [OF f(1) rr] e by simp
  have "q_round w n r = Some (cast w (((r + 2 ^ (n - 1)) div 2 ^ n) * 2 ^ n))"
    using r0 by (simp add: q_round_value [OF sb n])
  also have "((r + 2 ^ (n - 1)) div 2 ^ n) * 2 ^ n = r"
    unfolding grid_plus_half_div(1) [OF n d] using d by simp
  finally show "q_round w n (round_half_away n x) = Some (round_half_away n x)"
    using cast_id [OF f(1) rr] e by simp
qed

lemma cast_shift_ne:
  assumes w: "0 < w" and n: "n < w"
  shows "cast w (r - 2 ^ n) \<noteq> r"
proof
  assume "cast w (r - 2 ^ n) = r"
  then have "cast w (r - 2 ^ n) mod 2 ^ w = r mod 2 ^ w" by simp
  then have "(r - 2 ^ n) mod 2 ^ w = r mod 2 ^ w" by (simp only: cast_mod_self [OF w])
  then have "(2::int) ^ w dvd (r - (r - 2 ^ n))" by (metis mod_eq_dvd_iff)
  then have "(2::int) ^ w dvd 2 ^ n" by simp
  then have "(2::int) ^ w \<le> 2 ^ n" by (rule zdvd_imp_le) simp
  then have "w \<le> n" by simp
  with n show False by simp
qed

lemma q_round_negative:
  assumes sb: "storage_bits m n = Some w" and n: "1 \<le> n"
    and x: "x < 0" "in_range w (x - 2 ^ (n - 1))"
  shows "\<exists>r. q_round w n x = Some r \<and> r = ((x - 2 ^ (n - 1)) div 2 ^ n) * 2 ^ n \<and> r < 0
           \<and> r = (if 2 ^ n dvd x - 2 ^ (n - 1) then round_half_away n x
                  else round_half_away n x - 2 ^ n)
           \<and> q_round w n r = Some (cast w (r - 2 ^ n)) \<and> q_round w n r \<noteq> Some r"
proof -
  note f = format_facts [OF sb]
  define P where "P = (2::int) ^ n"
  define h where "h = (2::int) ^ (n - 1)"
  define r where "r = ((x - h) div P) * P"
  have h: "0 < h" "h < P" using half_facts [OF n] unfolding P_def h_def by simp_all
  have rr: "in_range w r" unfolding r_def P_def h_def by (rule grid_in_range [OF f(1) f(3) x(2)])
  have "x - h = ((x - h) div P) * P + (x - h) mod P" by simp
  moreover have "0 \<le> (x - h) mod P" using h by simp
  ultimately have "r \<le> x - h" unfolding r_def by linarith
  then have r0: "r < 0" using x(1) h by linarith
  have d: "P dvd r" unfolding r_def by simp
  have v: "q_round w n x = Some r"
    using x(1) cast_id [OF f(1) rr] unfolding r_def P_def h_def by (simp add: q_round_value [OF sb n])
  have "q_round w n r = Some (cast w (((r - h) div P) * P))"
    using r0 unfolding P_def h_def by (simp add: q_round_value [OF sb n])
  also have "((r - h) div P) * P = r - P"
  proof -
    have "(r - h) div P = r div P - 1"
      using grid_plus_half_div(2) [OF n, of r] d unfolding P_def h_def by simp
    then have "((r - h) div P) * P = (r div P) * P - P" by (simp only: left_diff_distrib mult_1)
    moreover have "(r div P) * P = r" using d by simp
    ultimately show ?thesis by (simp only:)
  qed
  finally have v2: "q_round w n r = Some (cast w (r - P))" .
  have ne: "cast w (r - P) \<noteq> r" unfolding P_def by (rule cast_shift_ne [OF f(1) f(2)])
  have ax: "sgn x = - 1" "\<bar>x\<bar> = - x" using x(1) by simp_all
  have rha: "round_half_away n x = - (((- (x - h)) div P) * P)"
    unfolding round_half_away_def ax P_def h_def by simp
  have P0: "P \<noteq> 0" using h by simp
  have nearest: "r = (if P dvd x - h then round_half_away n x else round_half_away n x - P)"
  proof (cases "P dvd x - h")
    case True
    then have "(x - h) mod P = 0" by (simp add: mod_eq_0_iff_dvd)
    then have "(- (x - h)) div P = - ((x - h) div P)"
      by (simp only: zdiv_zminus1_eq_if [OF P0] simp_thms if_True)
    then have "((x - h) div P) * P = - (((- (x - h)) div P) * P)" by (simp only: minus_mult_left minus_minus)
    with True show ?thesis unfolding rha r_def by (simp only: if_True)
  next
    case False
    then have "(x - h) mod P \<noteq> 0" by (simp add: mod_eq_0_iff_dvd)
    then have "(- (x - h)) div P = - ((x - h) div P) - 1"
      by (simp only: zdiv_zminus1_eq_if [OF P0] simp_thms if_False)
    then have "((- (x - h)) div P) * P = (- ((x - h) div P) - 1) * P" by (simp only:)
    also have "\<dots> = - (((x - h) div P) * P) - P" by (simp only: left_diff_distrib minus_mult_left mult_1)
    finally have "((x - h) div P) * P = - (((- (x - h)) div P) * P) - P" by linarith
    with False show ?thesis unfolding rha r_def by (simp only: if_False)
  qed
  show ?thesis
    using v v2 ne r0 nearest unfolding r_def P_def h_def by simp
qed

text \<open>
  Claim C1. When \<open>x + HALF\<close> (for \<open>x \<ge> 0\<close>) or \<open>x - HALF\<close> (for \<open>x < 0\<close>) does
  not overflow, \<open>round(x)\<close> should be the multiple of \<open>ONE\<close> nearest to \<open>x\<close>,
  a tie going away from zero. The code does this for \<open>x \<ge> 0\<close>
  (\<open>q_round_nonneg\<close>). For \<open>x < 0\<close> the mask rounds \<open>x - HALF\<close> down instead of
  toward zero, and the result is one \<open>ONE\<close> below the nearest multiple except on a
  tie (\<open>q_round_negative\<close>). In Q7.8, \<open>round(-256)\<close>, the rounding of \<open>-1.0\<close>,
  is \<open>-512\<close>, that is \<open>-2.0\<close>, and not \<open>-256\<close>.
\<close>

theorem round_negative_Q7_8:
  "storage_bits 7 8 = Some 16 \<and> in_range 16 (- 256)
   \<and> QM_HALF 16 8 = Some 128 \<and> in_range 16 (- 256 - 128)
   \<and> round_half_away 8 (- 256) = - 256
   \<and> q_round 16 8 (- 256) = Some (- 512)"
  by (simp add: storage_bits_def total_bits_def in_range_def QM_HALF_def QM_ONE_def shl_def
      cast_def round_half_away_def q_round_def)

text \<open>
  Claim C2. Each of \<open>floor\<close>, \<open>ceil\<close>, \<open>round\<close> and \<open>trunc\<close> should be
  idempotent. \<open>floor\<close>, \<open>ceil\<close> and \<open>trunc\<close> are, for every format and value
  (\<open>q_floor_idempotent\<close>, \<open>q_ceil_idempotent\<close>, \<open>q_trunc_idempotent\<close>), and so
  is \<open>round\<close> on \<open>x \<ge> 0\<close> (\<open>q_round_nonneg\<close>). On a negative value \<open>round\<close>
  is not: a second application steps down by another \<open>ONE\<close>
  (\<open>q_round_negative\<close>). In Q7.8, \<open>round(-64) = -256\<close> and
  \<open>round(-256) = -512\<close>.
\<close>

theorem round_not_idempotent_Q7_8:
  "storage_bits 7 8 = Some 16 \<and> in_range 16 (- 64)
   \<and> in_range 16 (- 64 - 128) \<and> in_range 16 (- 256 - 128)
   \<and> q_round 16 8 (- 64) = Some (- 256)
   \<and> q_round 16 8 (- 256) = Some (- 512)"
  by (simp add: storage_bits_def total_bits_def in_range_def QM_HALF_def QM_ONE_def shl_def
      cast_def q_round_def)

end
